theory Spec2Isabelle
  imports
    Complex_Main
    "HOL-Library.Char_ord"
    "HOL-Library.List_Lexorder"
    "HOL-Library.Sublist"
begin

section \<open>The storage layer (db.ts)\<close>

text \<open>
  The module \<^verbatim>\<open>db.ts\<close> talks to an expo-sqlite handle. The handle is not part of the
  repository; it is modelled by the meaning of each SQL statement on the two tables that
  \<^verbatim>\<open>initDb\<close> creates, together with the conditions under which a call rejects.
  JavaScript numbers are idealised as real numbers (the \<^verbatim>\<open>REAL\<close> columns never hold
  \<^verbatim>\<open>NULL\<close>: both are declared \<^verbatim>\<open>NOT NULL\<close>). Text is compared as SQLite's
  default \<^verbatim>\<open>BINARY\<close> collation does: byte by byte, a proper prefix being smaller, which
  is the lexicographic order on \<^typ>\<open>string\<close>.
\<close>

text \<open>A thrown \<^verbatim>\<open>Error\<close> with its message.\<close>

datatype error = Error string

text \<open>\<^verbatim>\<open>TransactionRow\<close>, a row of the table \<^verbatim>\<open>transactions\<close>.\<close>

record transaction_row =
  t_id :: int
  t_amount :: real
  t_category :: string
  t_label :: "string option"
  t_date :: string

text \<open>
  A row of the table \<^verbatim>\<open>budgets\<close>. Its \<^verbatim>\<open>id\<close> column is left out: no statement of
  the module selects it, filters on it or orders by it.
\<close>

record budget_row =
  b_month :: string
  b_category :: string
  b_amount :: real

text \<open>The statements the module issues, each with its bound parameters.\<close>

datatype sql =
    OpenDatabase
  | CreateTransactions
  | CreateBudgets
  | CreateBudgetsIndex
  | InsertTransaction real string "string option" string
  | SelectTransactions
  | DeleteTransactionsIn "int list"
  | UpdateTransactionSet real string "string option" string int
  | SelectCategoryTotals string string
  | SelectBudgetFallback string string
  | SelectBudgetExact string string
  | InsertBudgetOnConflict string string real
  | DeleteBudget string string

text \<open>
  The state the module runs against: whether \<^verbatim>\<open>Platform.OS\<close> is \<^verbatim>\<open>'web'\<close>, which
  calls the storage layer rejects (with the message of the error), the two tables, and
  the \<^verbatim>\<open>AUTOINCREMENT\<close> counter of \<^verbatim>\<open>transactions\<close> (the largest id ever used).
\<close>

record store =
  web :: bool
  io_error :: "sql \<Rightarrow> string option"
  transactions :: "transaction_row list"
  transactions_seq :: int
  budgets :: "budget_row list"

text \<open>
  A healthy store: the platform has SQLite and the storage layer rejects no call. (An
  input/output failure is a rejection, and so is a statement with more bound parameters
  than SQLite accepts.)
\<close>

definition healthy :: "store \<Rightarrow> bool" where
  "healthy s \<longleftrightarrow> \<not> web s \<and> io_error s = (\<lambda>q. None)"

text \<open>The uniqueness constraint \<^verbatim>\<open>budgets_month_category_idx\<close> on \<^verbatim>\<open>budgets(month, category)\<close>.\<close>

definition budget_key :: "budget_row \<Rightarrow> string \<times> string" where
  "budget_key b = (b_month b, b_category b)"

definition unique_month_category :: "budget_row list \<Rightarrow> bool" where
  "unique_month_category bs \<longleftrightarrow> distinct (map budget_key bs)"

text \<open>A call on the handle rejects when the storage layer says so.\<close>

definition attempt :: "store \<Rightarrow> sql \<Rightarrow> error + unit" where
  "attempt s q = (case io_error s q of Some msg \<Rightarrow> Inl (Error msg) | None \<Rightarrow> Inr ())"

definition getDb :: "store \<Rightarrow> error + unit" where
  "getDb s =
     (if web s
      then Inl (Error ''SQLite is not available on web without SharedArrayBuffer support.'')
      else attempt s OpenDatabase)"

subsection \<open>Budget queries\<close>

text \<open>
  \<^verbatim>\<open>SELECT amount FROM budgets WHERE category = ? AND month = ? LIMIT 1\<close>:
  the first matching row in table order.
\<close>

definition select_budget_exact :: "budget_row list \<Rightarrow> string \<Rightarrow> string \<Rightarrow> real option" where
  "select_budget_exact bs category month =
     map_option b_amount (find (\<lambda>b. b_category b = category \<and> b_month b = month) bs)"

text \<open>
  \<^verbatim>\<open>SELECT amount FROM budgets WHERE category = ? AND month <= ? ORDER BY month DESC LIMIT 1\<close>:
  the matching rows, ordered by descending month, and the first of them.
\<close>

definition select_budget_fallback :: "budget_row list \<Rightarrow> string \<Rightarrow> string \<Rightarrow> real option" where
  "select_budget_fallback bs category month =
     (case rev (sort_key b_month (filter (\<lambda>b. b_category b = category \<and> b_month b \<le> month) bs)) of
        [] \<Rightarrow> None
      | b # _ \<Rightarrow> Some (b_amount b))"

text \<open>\<^verbatim>\<open>db.getFirstAsync<{ amount: number }>\<close>: the first row of the result, or null.\<close>

definition getFirstAsync :: "store \<Rightarrow> sql \<Rightarrow> error + real option" where
  "getFirstAsync s q =
     (case attempt s q of
        Inl e \<Rightarrow> Inl e
      | Inr _ \<Rightarrow>
          Inr (case q of
                 SelectBudgetExact category month \<Rightarrow> select_budget_exact (budgets s) category month
               | SelectBudgetFallback category month \<Rightarrow> select_budget_fallback (budgets s) category month
               | _ \<Rightarrow> None))"

text \<open>The loop of \<^verbatim>\<open>getMonthlyBudgetsWithFallback\<close> over the categories, with its accumulator.\<close>

fun fallback_loop ::
  "store \<Rightarrow> string \<Rightarrow> string list \<Rightarrow> (string \<rightharpoonup> real) \<Rightarrow> error + (string \<rightharpoonup> real)" where
  "fallback_loop s month [] results = Inr results"
| "fallback_loop s month (category # rest) results =
     (case getFirstAsync s (SelectBudgetFallback category month) of
        Inl e \<Rightarrow> Inl e
      | Inr row \<Rightarrow>
          fallback_loop s month rest
            (results(category \<mapsto> (case row of Some a \<Rightarrow> a | None \<Rightarrow> 0))))"

definition getMonthlyBudgetsWithFallback ::
  "store \<Rightarrow> string \<Rightarrow> string list \<Rightarrow> error + (string \<rightharpoonup> real)" where
  "getMonthlyBudgetsWithFallback s month categories =
     (case getDb s of
        Inl e \<Rightarrow> Inl e
      | Inr _ \<Rightarrow> fallback_loop s month categories Map.empty)"

record budget_status =
  amounts :: "string \<rightharpoonup> real"
  exact :: "string \<rightharpoonup> bool"

text \<open>
  The loop of \<^verbatim>\<open>getMonthlyBudgetsWithFallbackStatus\<close>: the exact-month query first, and
  the fallback query only when it found no row (\<^verbatim>\<open>continue\<close> otherwise).
\<close>

fun status_loop ::
  "store \<Rightarrow> string \<Rightarrow> string list \<Rightarrow> budget_status \<Rightarrow> error + budget_status" where
  "status_loop s month [] r = Inr r"
| "status_loop s month (category # rest) r =
     (case getFirstAsync s (SelectBudgetExact category month) of
        Inl e \<Rightarrow> Inl e
      | Inr exactRow \<Rightarrow>
          (let r1 = r\<lparr>exact := (exact r)(category \<mapsto> exactRow \<noteq> None)\<rparr> in
           case exactRow of
             Some a \<Rightarrow> status_loop s month rest (r1\<lparr>amounts := (amounts r1)(category \<mapsto> a)\<rparr>)
           | None \<Rightarrow>
               (case getFirstAsync s (SelectBudgetFallback category month) of
                  Inl e \<Rightarrow> Inl e
                | Inr fallbackRow \<Rightarrow>
                    status_loop s month rest
                      (r1\<lparr>amounts := (amounts r1)(category \<mapsto>
                             (case fallbackRow of Some a \<Rightarrow> a | None \<Rightarrow> 0))\<rparr>))))"

definition getMonthlyBudgetsWithFallbackStatus ::
  "store \<Rightarrow> string \<Rightarrow> string list \<Rightarrow> error + budget_status" where
  "getMonthlyBudgetsWithFallbackStatus s month categories =
     (case getDb s of
        Inl e \<Rightarrow> Inl e
      | Inr _ \<Rightarrow> status_loop s month categories \<lparr>amounts = Map.empty, exact = Map.empty\<rparr>)"

text \<open>
  The look-up of one category fails when the exact-month query rejects, or when it finds
  no row and the fallback query rejects.
\<close>

definition lookup_fails :: "store \<Rightarrow> string \<Rightarrow> string \<Rightarrow> bool" where
  "lookup_fails s month c =
     (case getFirstAsync s (SelectBudgetExact c month) of
        Inl e \<Rightarrow> True
      | Inr (Some a) \<Rightarrow> False
      | Inr None \<Rightarrow> isl (getFirstAsync s (SelectBudgetFallback c month)))"

subsection \<open>Budget writes\<close>

text \<open>
  \<^verbatim>\<open>INSERT INTO budgets (month, category, amount) VALUES (?, ?, ?)
  ON CONFLICT(month, category) DO UPDATE SET amount = excluded.amount\<close>:
  a row with the same month and category has its amount overwritten; otherwise the
  new row is appended.
\<close>

definition insert_budget_on_conflict ::
  "budget_row list \<Rightarrow> string \<Rightarrow> string \<Rightarrow> real \<Rightarrow> budget_row list" where
  "insert_budget_on_conflict bs month category amount =
     (if (month, category) \<in> set (map budget_key bs)
      then map (\<lambda>b. if budget_key b = (month, category) then b\<lparr>b_amount := amount\<rparr> else b) bs
      else bs @ [\<lparr>b_month = month, b_category = category, b_amount = amount\<rparr>])"

definition upsertBudget :: "store \<Rightarrow> string \<Rightarrow> string \<Rightarrow> real \<Rightarrow> error + store" where
  "upsertBudget s month category amount =
     (case getDb s of
        Inl e \<Rightarrow> Inl e
      | Inr _ \<Rightarrow>
          (case attempt s (InsertBudgetOnConflict month category amount) of
             Inl e \<Rightarrow> Inl e
           | Inr _ \<Rightarrow>
               Inr (s\<lparr>budgets := insert_budget_on_conflict (budgets s) month category amount\<rparr>)))"

text \<open>\<^verbatim>\<open>DELETE FROM budgets WHERE month = ? AND category = ?\<close>\<close>

definition deleteBudgetForMonth :: "store \<Rightarrow> string \<Rightarrow> string \<Rightarrow> error + store" where
  "deleteBudgetForMonth s month category =
     (case getDb s of
        Inl e \<Rightarrow> Inl e
      | Inr _ \<Rightarrow>
          (case attempt s (DeleteBudget month category) of
             Inl e \<Rightarrow> Inl e
           | Inr _ \<Rightarrow>
               Inr (s\<lparr>budgets :=
                      filter (\<lambda>b. \<not> (b_month b = month \<and> b_category b = category)) (budgets s)\<rparr>)))"

subsection \<open>Transaction statements\<close>

text \<open>
  \<^verbatim>\<open>INSERT INTO transactions (amount, category, label, date) VALUES (?, ?, ?, ?)\<close>:
  with \<^verbatim>\<open>AUTOINCREMENT\<close> the new id is one more than the largest id the table has
  ever held.
\<close>

definition next_transaction_id :: "store \<Rightarrow> int" where
  "next_transaction_id s = fold max (map t_id (transactions s)) (transactions_seq s) + 1"

definition insertTransaction ::
  "store \<Rightarrow> real \<Rightarrow> string \<Rightarrow> string option \<Rightarrow> string \<Rightarrow> error + store" where
  "insertTransaction s amount category label date =
     (case getDb s of
        Inl e \<Rightarrow> Inl e
      | Inr _ \<Rightarrow>
          (case attempt s (InsertTransaction amount category label date) of
             Inl e \<Rightarrow> Inl e
           | Inr _ \<Rightarrow>
               Inr (s\<lparr>transactions := transactions s @
                        [\<lparr>t_id = next_transaction_id s, t_amount = amount, t_category = category,
                          t_label = label, t_date = date\<rparr>],
                      transactions_seq := next_transaction_id s\<rparr>)))"

text \<open>\<^verbatim>\<open>SELECT id, amount, category, label, date FROM transactions ORDER BY id DESC\<close>\<close>

definition getTransactions :: "store \<Rightarrow> error + transaction_row list" where
  "getTransactions s =
     (case getDb s of
        Inl e \<Rightarrow> Inl e
      | Inr _ \<Rightarrow>
          (case attempt s SelectTransactions of
             Inl e \<Rightarrow> Inl e
           | Inr _ \<Rightarrow> Inr (rev (sort_key t_id (transactions s)))))"

text \<open>
  \<^verbatim>\<open>deleteTransactions\<close> returns before it asks for the handle when the list of ids is
  empty; otherwise \<^verbatim>\<open>DELETE FROM transactions WHERE id IN (?, ..., ?)\<close> with the ids bound.
\<close>

definition deleteTransactions :: "store \<Rightarrow> int list \<Rightarrow> error + store" where
  "deleteTransactions s ids =
     (if length ids = 0 then Inr s
      else
        (case getDb s of
           Inl e \<Rightarrow> Inl e
         | Inr _ \<Rightarrow>
             (case attempt s (DeleteTransactionsIn ids) of
                Inl e \<Rightarrow> Inl e
              | Inr _ \<Rightarrow>
                  Inr (s\<lparr>transactions := filter (\<lambda>t. t_id t \<notin> set ids) (transactions s)\<rparr>))))"

text \<open>\<^verbatim>\<open>UPDATE transactions SET amount = ?, category = ?, label = ?, date = ? WHERE id = ?\<close>\<close>

definition updateTransaction ::
  "store \<Rightarrow> int \<Rightarrow> real \<Rightarrow> string \<Rightarrow> string option \<Rightarrow> string \<Rightarrow> error + store" where
  "updateTransaction s ident amount category label date =
     (case getDb s of
        Inl e \<Rightarrow> Inl e
      | Inr _ \<Rightarrow>
          (case attempt s (UpdateTransactionSet amount category label date ident) of
             Inl e \<Rightarrow> Inl e
           | Inr _ \<Rightarrow>
               Inr (s\<lparr>transactions :=
                      map (\<lambda>t. if t_id t = ident
                               then t\<lparr>t_amount := amount, t_category := category,
                                      t_label := label, t_date := date\<rparr>
                               else t)
                        (transactions s)\<rparr>)))"

text \<open>
  \<^verbatim>\<open>SELECT category, SUM(amount) as total FROM transactions
  WHERE date >= ? AND date < ? GROUP BY category\<close>.
  The rows that pass the \<^verbatim>\<open>WHERE\<close> clause are fed one by one to the aggregate: a row
  adds its amount to the group of its category, or opens that group. A result row is a
  pair of \<^verbatim>\<open>category\<close> and \<^verbatim>\<open>total\<close>. SQL does not fix the order of the groups,
  and no caller depends on it.
\<close>

fun add_to_group :: "string \<Rightarrow> real \<Rightarrow> (string \<times> real) list \<Rightarrow> (string \<times> real) list" where
  "add_to_group c a [] = [(c, a)]"
| "add_to_group c a ((c', tot) # groups) =
     (if c' = c then (c', tot + a) # groups else (c', tot) # add_to_group c a groups)"

definition group_by_category_sum :: "transaction_row list \<Rightarrow> (string \<times> real) list" where
  "group_by_category_sum rows =
     foldl (\<lambda>groups t. add_to_group (t_category t) (t_amount t) groups) [] rows"

text \<open>The sum of the amounts of the rows of one category, for comparison.\<close>

definition category_sum :: "transaction_row list \<Rightarrow> string \<Rightarrow> real" where
  "category_sum ts c = sum_list (map t_amount (filter (\<lambda>t. t_category t = c) ts))"

definition select_category_totals ::
  "transaction_row list \<Rightarrow> string \<Rightarrow> string \<Rightarrow> (string \<times> real) list" where
  "select_category_totals ts monthStart monthEnd =
     group_by_category_sum (filter (\<lambda>t. t_date t \<ge> monthStart \<and> t_date t < monthEnd) ts)"

definition getMonthlyCategoryTotals ::
  "store \<Rightarrow> string \<Rightarrow> string \<Rightarrow> error + (string \<times> real) list" where
  "getMonthlyCategoryTotals s monthStart monthEnd =
     (case getDb s of
        Inl e \<Rightarrow> Inl e
      | Inr _ \<Rightarrow>
          (case attempt s (SelectCategoryTotals monthStart monthEnd) of
             Inl e \<Rightarrow> Inl e
           | Inr _ \<Rightarrow> Inr (select_category_totals (transactions s) monthStart monthEnd)))"

text \<open>
  \<^verbatim>\<open>initDb\<close>: the three \<^verbatim>\<open>CREATE ... IF NOT EXISTS\<close> statements leave existing
  tables as they are.
\<close>

definition initDb :: "store \<Rightarrow> error + unit" where
  "initDb s =
     (case getDb s of
        Inl e \<Rightarrow> Inl e
      | Inr _ \<Rightarrow>
          (case attempt s CreateTransactions of
             Inl e \<Rightarrow> Inl e
           | Inr _ \<Rightarrow>
               (case attempt s CreateBudgets of
                  Inl e \<Rightarrow> Inl e
                | Inr _ \<Rightarrow> attempt s CreateBudgetsIndex)))"

section \<open>The progress donut (DonutChart.tsx)\<close>

text \<open>
  The numbers \<^verbatim>\<open>DonutChart\<close> computes before it renders, over the reals
  (\<^verbatim>\<open>Math.PI\<close> is \<^term>\<open>pi\<close>; the prop \<^verbatim>\<open>size\<close> is written \<open>sz\<close>). Both versions of
  the component compute them the same way.
\<close>

definition clamped :: "real \<Rightarrow> real" where
  "clamped progress = max 0 (min 1 progress)"

definition radius :: "real \<Rightarrow> real \<Rightarrow> real" where
  "radius sz strokeWidth = (sz - strokeWidth) / 2"

definition circumference :: "real \<Rightarrow> real \<Rightarrow> real" where
  "circumference sz strokeWidth = 2 * pi * radius sz strokeWidth"

definition dash :: "real \<Rightarrow> real \<Rightarrow> real \<Rightarrow> real" where
  "dash sz strokeWidth progress = circumference sz strokeWidth * clamped progress"

section \<open>The change notification bus (transactions-events.ts)\<close>

text \<open>
  A listener is a function object, known by its identity. What its body does when it is
  called is given by a table \<open>body\<close>: a sequence of calls on the bus. A body returns
  normally and does not publish.

  \<^verbatim>\<open>listeners\<close> is a JavaScript \<^verbatim>\<open>Set\<close>: a list of entries in insertion order, where
  \<^verbatim>\<open>delete\<close> empties the slot of a value (\<^term>\<open>None\<close>) and \<^verbatim>\<open>add\<close> appends a value
  that is not present. \<^verbatim>\<open>Set.prototype.forEach\<close> walks this list by index and reads its
  length again after every callback. The field \<open>invoked\<close> records the listeners that
  have been called, in order.
\<close>

type_synonym listener = nat

datatype call = Subscribe listener | Unsubscribe listener

record bus =
  listeners :: "listener option list"
  invoked :: "listener list"

definition set_add :: "listener \<Rightarrow> listener option list \<Rightarrow> listener option list" where
  "set_add l entries = (if Some l \<in> set entries then entries else entries @ [Some l])"

definition set_delete :: "listener \<Rightarrow> listener option list \<Rightarrow> listener option list" where
  "set_delete l entries = map (\<lambda>e. if e = Some l then None else e) entries"

text \<open>The values of the set, in insertion order.\<close>

definition live :: "listener option list \<Rightarrow> listener list" where
  "live entries = concat (map (\<lambda>e. case e of None \<Rightarrow> [] | Some l \<Rightarrow> [l]) entries)"

definition subscribeTransactionsChanged :: "listener \<Rightarrow> bus \<Rightarrow> bus" where
  "subscribeTransactionsChanged l b = b\<lparr>listeners := set_add l (listeners b)\<rparr>"

text \<open>The function \<^verbatim>\<open>() => listeners.delete(listener)\<close> that subscribing returns.\<close>

definition unsubscribe :: "listener \<Rightarrow> bus \<Rightarrow> bus" where
  "unsubscribe l b = b\<lparr>listeners := set_delete l (listeners b)\<rparr>"

fun run_body :: "call list \<Rightarrow> bus \<Rightarrow> bus" where
  "run_body [] b = b"
| "run_body (Subscribe l # cs) b = run_body cs (subscribeTransactionsChanged l b)"
| "run_body (Unsubscribe l # cs) b = run_body cs (unsubscribe l b)"

text \<open>
  \<^verbatim>\<open>listeners.forEach((listener) => listener())\<close> from index \<open>i\<close>. A body may add
  entries for ever, so the walk carries fuel, and \<^term>\<open>None\<close> says it ran out.
\<close>

fun forEach :: "nat \<Rightarrow> (listener \<Rightarrow> call list) \<Rightarrow> nat \<Rightarrow> bus \<Rightarrow> bus option" where
  "forEach 0 body i b = None"
| "forEach (Suc fuel) body i b =
     (if i < length (listeners b)
      then (case listeners b ! i of
              None \<Rightarrow> forEach fuel body (i + 1) b
            | Some l \<Rightarrow>
                forEach fuel body (i + 1) (run_body (body l) (b\<lparr>invoked := invoked b @ [l]\<rparr>)))
      else Some b)"

definition emitTransactionsChanged :: "nat \<Rightarrow> (listener \<Rightarrow> call list) \<Rightarrow> bus \<Rightarrow> bus option" where
  "emitTransactionsChanged fuel body b = forEach fuel body 0 b"

text \<open>The listeners that a body subscribes, and those it unsubscribes.\<close>

fun subscribed :: "call list \<Rightarrow> listener list" where
  "subscribed [] = []"
| "subscribed (Subscribe l # cs) = l # subscribed cs"
| "subscribed (Unsubscribe l # cs) = subscribed cs"

fun unsubscribed :: "call list \<Rightarrow> listener list" where
  "unsubscribed [] = []"
| "unsubscribed (Subscribe l # cs) = unsubscribed cs"
| "unsubscribed (Unsubscribe l # cs) = l # unsubscribed cs"

text \<open>
  The condition under which a pass delivers to everybody once. The pass began when the
  log \<open>invoked\<close> had length \<open>n0\<close>, so the listeners invoked in the pass so far are
  \<open>drop n0 (invoked b)\<close>. A body respects the pass when, at the moment of each call,
  it unsubscribes only a listener already invoked in the pass (itself, for one), and
  it subscribes only a listener that is in the set or has not been invoked in the pass:
  it does not bring back a listener that was invoked and has left.
\<close>

fun body_respects :: "nat \<Rightarrow> call list \<Rightarrow> bus \<Rightarrow> bool" where
  "body_respects n0 [] b = True"
| "body_respects n0 (Subscribe l # cs) b =
     ((Some l \<in> set (listeners b) \<or> l \<notin> set (drop n0 (invoked b))) \<and>
      body_respects n0 cs (subscribeTransactionsChanged l b))"
| "body_respects n0 (Unsubscribe l # cs) b =
     (l \<in> set (drop n0 (invoked b)) \<and> body_respects n0 cs (unsubscribe l b))"

text \<open>Every body that the walk runs from index \<open>i\<close> respects the pass.\<close>

fun pass_respects :: "nat \<Rightarrow> (listener \<Rightarrow> call list) \<Rightarrow> nat \<Rightarrow> nat \<Rightarrow> bus \<Rightarrow> bool" where
  "pass_respects 0 body n0 i b = True"
| "pass_respects (Suc fuel) body n0 i b =
     (if i < length (listeners b)
      then (case listeners b ! i of
              None \<Rightarrow> pass_respects fuel body n0 (i + 1) b
            | Some l \<Rightarrow>
                body_respects n0 (body l) (b\<lparr>invoked := invoked b @ [l]\<rparr>) \<and>
                pass_respects fuel body n0 (i + 1)
                  (run_body (body l) (b\<lparr>invoked := invoked b @ [l]\<rparr>)))
      else True)"

text \<open>The entries of a set after the listeners of \<open>U\<close> have been deleted.\<close>

definition emptied :: "listener set \<Rightarrow> listener option list \<Rightarrow> listener option list" where
  "emptied U entries =
     map (\<lambda>e. case e of None \<Rightarrow> None | Some l \<Rightarrow> if l \<in> U then None else Some l) entries"

text \<open>
  What holds of the walk when it reaches index \<open>i\<close>: the listeners in the slots still to
  visit have not been invoked in the pass, those in the slots already visited have.
\<close>

definition pass_inv :: "nat \<Rightarrow> listener list \<Rightarrow> nat \<Rightarrow> bus \<Rightarrow> bool" where
  "pass_inv n0 known i b \<longleftrightarrow>
     distinct (live (listeners b)) \<and>
     set (live (listeners b)) \<subseteq> set known \<and>
     n0 \<le> length (invoked b) \<and>
     distinct (drop n0 (invoked b)) \<and>
     set (live (drop i (listeners b))) \<inter> set (drop n0 (invoked b)) = {} \<and>
     set (live (take i (listeners b))) \<subseteq> set (drop n0 (invoked b)) \<and>
     i \<le> length (listeners b)"

text \<open>
  What holds of a walk that started at index \<open>i\<close> in the state \<open>b\<close> and has ended in the
  state \<open>b'\<close>, having invoked the listeners \<open>N\<close>.
\<close>

definition pass_result ::
  "(listener \<Rightarrow> call list) \<Rightarrow> nat \<Rightarrow> nat \<Rightarrow> bus \<Rightarrow> bus \<Rightarrow> listener list \<Rightarrow> bool" where
  "pass_result body n0 i b b' N \<longleftrightarrow>
     invoked b' = invoked b @ N \<and>
     distinct (drop n0 (invoked b) @ N) \<and>
     prefix (live (drop i (listeners b))) N \<and>
     (\<forall>l\<in>set N. set (subscribed (body l)) \<subseteq> set (drop n0 (invoked b)) \<union> set N) \<and>
     (\<forall>l'\<in>set N. l' \<in> set (live (drop i (listeners b))) \<or>
         (\<exists>l\<in>set N. l' \<in> set (subscribed (body l)))) \<and>
     set (live (listeners b'))
       = (set (live (listeners b)) \<union> (\<Union>l\<in>set N. set (subscribed (body l))))
           - (\<Union>l\<in>set N. set (unsubscribed (body l))) \<and>
     (\<forall>l\<in>set N. \<forall>l'\<in>set (subscribed (body l)).
         l' \<in> set (live (listeners b)) \<or> l' \<notin> set (drop n0 (invoked b)))"

section \<open>The write path of the screens\<close>

text \<open>
  What the handlers use from JavaScript. \<^verbatim>\<open>Number(text)\<close> is taken as a parameter
  \<open>toNumber\<close> of the handlers; its result is a number that may be \<^verbatim>\<open>NaN\<close> or infinite.
  A \<^verbatim>\<open>Date\<close> is either invalid (its \<^verbatim>\<open>getTime()\<close> is \<^verbatim>\<open>NaN\<close>) or has the local
  year, month (from 0) and day that \<^verbatim>\<open>formatDate\<close> reads.
\<close>

datatype js_number = Finite real | PosInfinity | NegInfinity | NaN

fun isFinite :: "js_number \<Rightarrow> bool" where
  "isFinite (Finite a) = True"
| "isFinite _ = False"

text \<open>\<^verbatim>\<open>x <= 0\<close>\<close>

fun le_zero :: "js_number \<Rightarrow> bool" where
  "le_zero (Finite a) = (a \<le> 0)"
| "le_zero NegInfinity = True"
| "le_zero _ = False"

fun real_of_number :: "js_number \<Rightarrow> real" where
  "real_of_number (Finite a) = a"
| "real_of_number _ = 0"

datatype js_date = InvalidDate | LocalDate int nat nat

text \<open>\<^verbatim>\<open>String(n)\<close> for an integer \<open>n\<close>.\<close>

fun digits :: "nat \<Rightarrow> string" where
  "digits n =
     (if n < 10 then [''0123456789'' ! n]
      else digits (n div 10) @ [''0123456789'' ! (n mod 10)])"

definition String_int :: "int \<Rightarrow> string" where
  "String_int n = (if n < 0 then CHR ''-'' # digits (nat (- n)) else digits (nat n))"

text \<open>\<^verbatim>\<open>text.padStart(2, '0')\<close>\<close>

definition padStart2 :: "string \<Rightarrow> string" where
  "padStart2 text = replicate (2 - length text) CHR ''0'' @ text"

fun formatDate :: "js_date \<Rightarrow> string" where
  "formatDate (LocalDate year month day) =
     String_int year @ ''-'' @ padStart2 (digits (month + 1)) @ ''-'' @ padStart2 (digits day)"
| "formatDate InvalidDate = ''NaN-NaN-NaN''"

text \<open>\<^verbatim>\<open>text.replace(',', '.')\<close>: the first comma only.\<close>

fun replace_comma :: "string \<Rightarrow> string" where
  "replace_comma [] = []"
| "replace_comma (c # cs) = (if c = CHR '','' then CHR ''.'' # cs else c # replace_comma cs)"

text \<open>\<^verbatim>\<open>text.trim()\<close>, for the white space of ASCII.\<close>

definition is_space :: "char \<Rightarrow> bool" where
  "is_space c \<longleftrightarrow> c \<in> set [CHR '' '', CHR 0x09, CHR 0x0A, CHR 0x0B, CHR 0x0C, CHR 0x0D]"

definition trim :: "string \<Rightarrow> string" where
  "trim text = rev (dropWhile is_space (rev (dropWhile is_space text)))"

definition categories :: "string list" where
  "categories = [''fun'', ''groceries'', ''boucherie'']"

subsection \<open>TransactionForm.handleSubmit\<close>

text \<open>
  The state of the form (\<^verbatim>\<open>showDatePicker\<close>, which the handler does not touch, is left
  out). The handler returns the state of the form, the store, and the notifications it
  sent: \<^verbatim>\<open>emitTransactionsChanged()\<close> and \<^verbatim>\<open>onSaved?.()\<close>. \<open>now\<close> is \<^verbatim>\<open>new Date()\<close>.
\<close>

record form =
  amount :: string
  category :: string
  label :: string
  transactionDate :: js_date
  error :: "string option"
  success :: "string option"
  dbReady :: bool

datatype signal = TransactionsChanged | Saved

definition handleSubmit ::
  "(string \<Rightarrow> js_number) \<Rightarrow> js_date \<Rightarrow> bool \<Rightarrow> form \<Rightarrow> store \<Rightarrow> form \<times> store \<times> signal list" where
  "handleSubmit toNumber now onSaved f0 s =
     (let f = f0\<lparr>error := None, success := None\<rparr>;
          parsedAmount = toNumber (replace_comma (amount f))
      in
        if \<not> isFinite parsedAmount \<or> le_zero parsedAmount
        then (f\<lparr>error := Some ''Amount must be a number greater than 0.''\<rparr>, s, [])
        else if category f \<notin> set categories
        then (f\<lparr>error := Some ''Category must be selected from the list.''\<rparr>, s, [])
        else if transactionDate f = InvalidDate
        then (f\<lparr>error := Some ''Transaction date is required.''\<rparr>, s, [])
        else if \<not> dbReady f
        then (f\<lparr>error := Some ''Database is not ready.''\<rparr>, s, [])
        else
          (let trimmedLabel = trim (label f);
               date = formatDate (transactionDate f)
           in
             case insertTransaction s (real_of_number parsedAmount) (category f)
                    (if trimmedLabel = [] then None else Some trimmedLabel) date of
               Inl e \<Rightarrow> (f\<lparr>error := Some ''Could not save the transaction.''\<rparr>, s, [])
             | Inr s' \<Rightarrow>
                 (f\<lparr>amount := [], category := categories ! 0, label := [],
                    transactionDate := now, success := Some ''Saved.''\<rparr>,
                  s',
                  TransactionsChanged # (if onSaved then [Saved] else []))))"

subsection \<open>ExpensesScreen.handleEditSave\<close>

text \<open>
  The state of the screen that the handler and \<^verbatim>\<open>reloadTransactions\<close> read or write
  (its field \<^verbatim>\<open>error\<close> is written \<open>screenError\<close>; \<^verbatim>\<open>selectedIds\<close> is a set in
  insertion order). The handler returns the state of the screen, the store, and the
  alerts it showed.
\<close>

record expenses_screen =
  rows :: "transaction_row list"
  screenError :: "string option"
  selectedIds :: "int list"
  editing :: bool
  editAmount :: string
  editCategory :: string
  editLabel :: string
  editDate :: js_date

text \<open>\<^verbatim>\<open>err.message || 'Could not load transactions.'\<close>\<close>

fun message_or :: "error \<Rightarrow> string \<Rightarrow> string" where
  "message_or (Error msg) fallback = (if msg = [] then fallback else msg)"

definition reloadTransactions :: "expenses_screen \<Rightarrow> store \<Rightarrow> expenses_screen" where
  "reloadTransactions scr0 s =
     (let scr = scr0\<lparr>screenError := None\<rparr> in
      case initDb s of
        Inl e \<Rightarrow> scr\<lparr>screenError := Some (message_or e ''Could not load transactions.'')\<rparr>
      | Inr _ \<Rightarrow>
          (case getTransactions s of
             Inl e \<Rightarrow> scr\<lparr>screenError := Some (message_or e ''Could not load transactions.'')\<rparr>
           | Inr results \<Rightarrow> scr\<lparr>rows := results\<rparr>))"

definition handleEditSave ::
  "(string \<Rightarrow> js_number) \<Rightarrow> expenses_screen \<Rightarrow> store \<Rightarrow>
     expenses_screen \<times> store \<times> (string \<times> string) list" where
  "handleEditSave toNumber scr0 s =
     (let scr = scr0\<lparr>screenError := None\<rparr>;
          ids = selectedIds scr
      in
        if length ids \<noteq> 1
        then (scr\<lparr>screenError := Some ''Select a single transaction to edit.''\<rparr>, s, [])
        else
          (let parsedAmount = toNumber (replace_comma (editAmount scr)) in
             if \<not> isFinite parsedAmount \<or> le_zero parsedAmount
             then (scr\<lparr>screenError := Some ''Amount must be a number greater than 0.''\<rparr>, s, [])
             else if editCategory scr \<notin> set categories
             then (scr\<lparr>screenError := Some ''Category must be selected from the list.''\<rparr>, s, [])
             else if editDate scr = InvalidDate
             then (scr\<lparr>screenError := Some ''Transaction date is required.''\<rparr>, s, [])
             else
               (let trimmedLabel = trim (editLabel scr) in
                  case updateTransaction s (ids ! 0) (real_of_number parsedAmount) (editCategory scr)
                         (if trimmedLabel = [] then None else Some trimmedLabel)
                         (formatDate (editDate scr)) of
                    Inl e \<Rightarrow> (scr\<lparr>screenError := Some ''Could not update the transaction.''\<rparr>, s, [])
                  | Inr s' \<Rightarrow>
                      ((reloadTransactions scr s')\<lparr>selectedIds := [], editing := False\<rparr>,
                       s',
                       [(''Updated'', ''Transaction updated.'')]))))"

text \<open>The messages of the three validation checks that the two handlers share.\<close>

definition validation_messages :: "string list" where
  "validation_messages =
     [''Amount must be a number greater than 0.'',
      ''Category must be selected from the list.'',
      ''Transaction date is required.'']"

section \<open>Example states\<close>

definition example_store :: store where
  "example_store =
     \<lparr>web = False,
      io_error = (\<lambda>q. None),
      transactions =
        [\<lparr>t_id = 1, t_amount = 10, t_category = ''fun'', t_label = None, t_date = ''2024-06-01''\<rparr>,
         \<lparr>t_id = 2, t_amount = 5 / 2, t_category = ''fun'', t_label = Some ''cinema'',
           t_date = ''2024-06-30''\<rparr>,
         \<lparr>t_id = 3, t_amount = 40, t_category = ''groceries'', t_label = None,
           t_date = ''2024-07-01''\<rparr>,
         \<lparr>t_id = 4, t_amount = 7, t_category = ''groceries'', t_label = None,
           t_date = ''2024-05-31''\<rparr>,
         \<lparr>t_id = 5, t_amount = 12, t_category = ''boucherie'', t_label = None,
           t_date = ''2024-06-15''\<rparr>],
      transactions_seq = 5,
      budgets =
        [\<lparr>b_month = ''2024-01'', b_category = ''fun'', b_amount = 50\<rparr>,
         \<lparr>b_month = ''2024-03'', b_category = ''fun'', b_amount = 60\<rparr>,
         \<lparr>b_month = ''2024-06'', b_category = ''groceries'', b_amount = 80\<rparr>]\<rparr>"

text \<open>The same state on a storage layer that rejects one of the fallback queries.\<close>

definition failing_store :: store where
  "failing_store =
     example_store\<lparr>io_error :=
       (\<lambda>q. if q = SelectBudgetFallback ''boucherie'' ''2024-06''
             then Some ''disk I/O error'' else None)\<rparr>"

text \<open>A form and a screen with an amount that does not pass validation.\<close>

definition example_toNumber :: "string \<Rightarrow> js_number" where
  "example_toNumber text =
     (if text = ''12.5'' then Finite (25 / 2) else if text = ''-3'' then Finite (- 3) else NaN)"

definition example_form :: form where
  "example_form =
     \<lparr>amount = ''-3'', category = ''fun'', label = '' cinema '',
      transactionDate = LocalDate 2024 5 20, error = None, success = Some ''Saved.'',
      dbReady = True\<rparr>"

definition example_screen :: expenses_screen where
  "example_screen =
     \<lparr>rows = [], screenError = None, selectedIds = [2], editing = True,
      editAmount = ''abc'', editCategory = ''fun'', editLabel = ''cinema'',
      editDate = LocalDate 2024 5 30\<rparr>"

text \<open>
  A bus with one listener, whose body subscribes a second listener; a body that
  unsubscribes the second listener instead; bodies where the first listener unsubscribes
  itself and the second one subscribes it again; and bodies that respect the pass: the
  first listener subscribes a third one and unsubscribes itself, and the third one
  unsubscribes the second, which has had its turn by then.
\<close>

definition example_bus :: bus where
  "example_bus = \<lparr>listeners = [Some 0], invoked = []\<rparr>"

definition example_body :: "listener \<Rightarrow> call list" where
  "example_body l = (if l = 0 then [Subscribe 1] else [])"

definition unsubscribing_body :: "listener \<Rightarrow> call list" where
  "unsubscribing_body l = (if l = 0 then [Unsubscribe 1] else [])"

definition resubscribing_body :: "listener \<Rightarrow> call list" where
  "resubscribing_body l =
     (if l = 0 then [Unsubscribe 0] else if l = 1 then [Subscribe 0] else [])"

definition respectful_body :: "listener \<Rightarrow> call list" where
  "respectful_body l =
     (if l = 0 then [Subscribe 2, Unsubscribe 0] else if l = 2 then [Unsubscribe 1] else [])"

section \<open>Properties of the storage layer\<close>

subsection \<open>A healthy store answers every call\<close>

lemma healthy_getDb: "healthy s \<Longrightarrow> getDb s = Inr ()"
  by (simp add: healthy_def getDb_def attempt_def)

lemma healthy_attempt: "healthy s \<Longrightarrow> attempt s q = Inr ()"
  by (simp add: healthy_def attempt_def)

lemma healthy_getFirst_exact:
  "healthy s \<Longrightarrow>
   getFirstAsync s (SelectBudgetExact c m) = Inr (select_budget_exact (budgets s) c m)"
  by (simp add: getFirstAsync_def healthy_attempt)

lemma healthy_getFirst_fallback:
  "healthy s \<Longrightarrow>
   getFirstAsync s (SelectBudgetFallback c m) = Inr (select_budget_fallback (budgets s) c m)"
  by (simp add: getFirstAsync_def healthy_attempt)

lemma healthy_budgets_update: "healthy (s\<lparr>budgets := bs\<rparr>) = healthy s"
  by (simp add: healthy_def)

lemma healthy_transactions_update: "healthy (s\<lparr>transactions := ts\<rparr>) = healthy s"
  by (simp add: healthy_def)

lemma example_healthy: "healthy example_store"
  by (simp add: healthy_def example_store_def)

lemma example_unique: "unique_month_category (budgets example_store)"
  by (simp add: unique_month_category_def example_store_def budget_key_def)

subsection \<open>The two budget queries\<close>

lemma order_desc_first:
  assumes "rev (sort_key f xs) = y # ys"
  shows "y \<in> set xs \<and> (\<forall>x\<in>set xs. f x \<le> f y)"
proof -
  have eq: "sort_key f xs = rev ys @ [y]"
    using assms by (metis rev.simps(2) rev_rev_ident)
  have "set xs = set (rev ys @ [y])"
    using eq by (metis set_sort)
  moreover have "sorted (map f (rev ys @ [y]))"
    using eq by (metis sorted_sort_key)
  ultimately show ?thesis
    by (auto simp: sorted_append)
qed

lemma sort_key_Nil_iff: "sort_key f xs = [] \<longleftrightarrow> xs = []"
  by (metis length_0_conv length_sort)

lemma select_budget_fallback_None:
  "select_budget_fallback bs c m = None \<longleftrightarrow>
     (\<forall>b\<in>set bs. b_category b = c \<longrightarrow> \<not> b_month b \<le> m)"
proof -
  let ?xs = "filter (\<lambda>b. b_category b = c \<and> b_month b \<le> m) bs"
  have "select_budget_fallback bs c m = None \<longleftrightarrow> rev (sort_key b_month ?xs) = []"
    by (simp add: select_budget_fallback_def split: list.splits)
  also have "\<dots> \<longleftrightarrow> ?xs = []"
    by (simp only: rev_is_Nil_conv sort_key_Nil_iff)
  also have "\<dots> \<longleftrightarrow> (\<forall>b\<in>set bs. b_category b = c \<longrightarrow> \<not> b_month b \<le> m)"
    by (simp only: filter_empty_conv) blast
  finally show ?thesis .
qed

lemma select_budget_fallback_Some:
  assumes "select_budget_fallback bs c m = Some a"
  shows "\<exists>b\<in>set bs. b_category b = c \<and> b_month b \<le> m \<and> b_amount b = a \<and>
           (\<forall>b'\<in>set bs. b_category b' = c \<and> b_month b' \<le> m \<longrightarrow> b_month b' \<le> b_month b)"
proof -
  let ?xs = "filter (\<lambda>b. b_category b = c \<and> b_month b \<le> m) bs"
  from assms obtain b rest where r: "rev (sort_key b_month ?xs) = b # rest" and a: "b_amount b = a"
    by (auto simp: select_budget_fallback_def split: list.splits)
  from order_desc_first [OF r] have "b \<in> set ?xs" and "\<forall>x\<in>set ?xs. b_month x \<le> b_month b"
    by blast+
  with a show ?thesis by auto
qed

lemma unique_month_category_same:
  assumes "unique_month_category bs" "b \<in> set bs" "b' \<in> set bs"
    "b_month b = b_month b'" "b_category b = b_category b'"
  shows "b = b'"
proof -
  have "inj_on budget_key (set bs)"
    using assms(1) by (simp add: unique_month_category_def distinct_map)
  moreover have "budget_key b = budget_key b'"
    using assms(4,5) by (simp add: budget_key_def)
  ultimately show ?thesis
    using assms(2,3) by (auto dest: inj_onD)
qed

lemma select_budget_exact_Some:
  "select_budget_exact bs c m = Some a \<Longrightarrow>
   \<exists>b\<in>set bs. b_category b = c \<and> b_month b = m \<and> b_amount b = a"
  by (auto simp: select_budget_exact_def find_Some_iff)

lemma select_budget_exact_None:
  "select_budget_exact bs c m = None \<longleftrightarrow> (\<forall>b\<in>set bs. \<not> (b_month b = m \<and> b_category b = c))"
  by (auto simp: select_budget_exact_def find_None_iff)

lemma select_budget_fallback_latest:
  assumes u: "unique_month_category bs"
    and b: "b \<in> set bs" "b_category b = c" "b_month b \<le> m"
    and top: "\<forall>b'\<in>set bs. b_category b' = c \<and> b_month b' \<le> m \<longrightarrow> b_month b' \<le> b_month b"
  shows "select_budget_fallback bs c m = Some (b_amount b)"
proof -
  have "select_budget_fallback bs c m \<noteq> None"
    using b by (auto simp: select_budget_fallback_None)
  then obtain a where a: "select_budget_fallback bs c m = Some a" by auto
  from select_budget_fallback_Some [OF a] obtain b0 where
    b0: "b0 \<in> set bs" "b_category b0 = c" "b_month b0 \<le> m" "b_amount b0 = a"
    and top0: "\<forall>b'\<in>set bs. b_category b' = c \<and> b_month b' \<le> m \<longrightarrow> b_month b' \<le> b_month b0"
    by blast
  have "b_month b0 \<le> b_month b"
    using top b0 by blast
  moreover have "b_month b \<le> b_month b0"
    using top0 b by blast
  ultimately have "b_month b0 = b_month b"
    by (rule order_antisym)
  then have "b0 = b"
    using unique_month_category_same [OF u b0(1) b(1)] b(2) b0(2) by simp
  with a b0(4) show ?thesis by simp
qed

lemma select_budget_exact_row:
  assumes u: "unique_month_category bs"
    and b: "b \<in> set bs" "b_category b = c" "b_month b = m"
  shows "select_budget_exact bs c m = Some (b_amount b)"
proof -
  have "select_budget_exact bs c m \<noteq> None"
    using b by (auto simp: select_budget_exact_None)
  then obtain a where a: "select_budget_exact bs c m = Some a" by auto
  from select_budget_exact_Some [OF a] obtain b0 where
    b0: "b0 \<in> set bs" "b_category b0 = c" "b_month b0 = m" "b_amount b0 = a" by blast
  have "b0 = b"
    using unique_month_category_same [OF u b0(1) b(1)] b b0 by simp
  with a b0(4) show ?thesis by simp
qed

lemma exact_then_fallback_agree:
  assumes u: "unique_month_category bs" and e: "select_budget_exact bs c m = Some a"
  shows "select_budget_fallback bs c m = Some a"
proof -
  from select_budget_exact_Some [OF e] obtain b where
    b: "b \<in> set bs" "b_category b = c" "b_month b = m" "b_amount b = a" by blast
  have le: "b_month b \<le> m"
    using b(3) by simp
  have top: "\<forall>b'\<in>set bs. b_category b' = c \<and> b_month b' \<le> m \<longrightarrow> b_month b' \<le> b_month b"
    using b(3) by simp
  have "select_budget_fallback bs c m = Some (b_amount b)"
    by (rule select_budget_fallback_latest [OF u b(1) b(2) le top])
  with b(4) show ?thesis by simp
qed

subsection \<open>The resolver loops on a healthy store\<close>

lemma fallback_loop_healthy:
  "healthy s \<Longrightarrow>
   fallback_loop s m cs acc =
     Inr (\<lambda>c. if c \<in> set cs
              then Some (case select_budget_fallback (budgets s) c m of Some a \<Rightarrow> a | None \<Rightarrow> 0)
              else acc c)"
proof (induction cs arbitrary: acc)
  case Nil
  then show ?case by simp
next
  case (Cons c cs)
  show ?case
    by (simp add: healthy_getFirst_fallback [OF Cons.prems] Cons.IH [OF Cons.prems] fun_eq_iff)
qed

lemma status_loop_healthy:
  "healthy s \<Longrightarrow>
   status_loop s m cs r =
     Inr \<lparr>amounts = (\<lambda>c. if c \<in> set cs
                then Some (case select_budget_exact (budgets s) c m of
                             Some a \<Rightarrow> a
                           | None \<Rightarrow> (case select_budget_fallback (budgets s) c m of
                                        Some a \<Rightarrow> a | None \<Rightarrow> 0))
                else amounts r c),
          exact = (\<lambda>c. if c \<in> set cs
                then Some (select_budget_exact (budgets s) c m \<noteq> None)
                else exact r c)\<rparr>"
proof (induction cs arbitrary: r)
  case Nil
  then show ?case by simp
next
  case (Cons c cs)
  show ?case
  proof (cases "select_budget_exact (budgets s) c m")
    case None
    then show ?thesis
      by (simp add: healthy_getFirst_exact [OF Cons.prems] healthy_getFirst_fallback [OF Cons.prems]
          Cons.IH [OF Cons.prems] fun_eq_iff Let_def)
  next
    case (Some a)
    then show ?thesis
      by (simp add: healthy_getFirst_exact [OF Cons.prems] Cons.IH [OF Cons.prems] fun_eq_iff Let_def)
  qed
qed

lemma status_healthy:
  assumes "healthy s"
  shows "getMonthlyBudgetsWithFallbackStatus s m cs =
     Inr \<lparr>amounts = (\<lambda>c. if c \<in> set cs
                then Some (case select_budget_exact (budgets s) c m of
                             Some a \<Rightarrow> a
                           | None \<Rightarrow> (case select_budget_fallback (budgets s) c m of
                                        Some a \<Rightarrow> a | None \<Rightarrow> 0))
                else None),
          exact = (\<lambda>c. if c \<in> set cs
                then Some (select_budget_exact (budgets s) c m \<noteq> None)
                else None)\<rparr>"
  by (simp add: getMonthlyBudgetsWithFallbackStatus_def healthy_getDb [OF assms]
      status_loop_healthy [OF assms] fun_eq_iff)

text \<open>
  C9. On a healthy store whose budget table satisfies the uniqueness constraint, for every
  month and every list of categories, the map that \<^verbatim>\<open>getMonthlyBudgetsWithFallback\<close>
  returns is the \<open>amounts\<close> field of the result of
  \<^verbatim>\<open>getMonthlyBudgetsWithFallbackStatus\<close>: looking for the exact row first and falling
  back to the latest month up to \<open>M\<close> gives the same amount as the single look-up of the
  latest month up to \<open>M\<close>.
\<close>

theorem resolvers_agree:
  assumes "healthy s" and "unique_month_category (budgets s)"
  shows "\<exists>r. getMonthlyBudgetsWithFallbackStatus s month cats = Inr r \<and>
             getMonthlyBudgetsWithFallback s month cats = Inr (amounts r)"
proof -
  have eq: "(case select_budget_exact (budgets s) c month of
           Some a \<Rightarrow> a
         | None \<Rightarrow> (case select_budget_fallback (budgets s) c month of Some a \<Rightarrow> a | None \<Rightarrow> 0))
        = (case select_budget_fallback (budgets s) c month of Some a \<Rightarrow> a | None \<Rightarrow> 0)" for c
    using exact_then_fallback_agree [OF assms(2), of c month]
    by (cases "select_budget_exact (budgets s) c month") simp_all
  show ?thesis
    by (simp add: getMonthlyBudgetsWithFallback_def healthy_getDb [OF assms(1)]
        status_healthy [OF assms(1)] fallback_loop_healthy [OF assms(1)] eq fun_eq_iff)
qed

theorem resolvers_agree_witness:
  "healthy example_store \<and> unique_month_category (budgets example_store) \<and>
   (\<exists>r. getMonthlyBudgetsWithFallbackStatus example_store ''2024-06'' categories = Inr r \<and>
        getMonthlyBudgetsWithFallback example_store ''2024-06'' categories = Inr (amounts r) \<and>
        amounts r ''fun'' = Some 60 \<and> amounts r ''groceries'' = Some 80 \<and>
        amounts r ''boucherie'' = Some 0)"
proof -
  have h: "healthy example_store"
    by (simp add: healthy_def example_store_def)
  have u: "unique_month_category (budgets example_store)"
    by (simp add: unique_month_category_def example_store_def budget_key_def)
  show ?thesis
    using h u resolvers_agree [OF h u, of "''2024-06''" categories]
    by (simp add: getMonthlyBudgetsWithFallbackStatus_def getDb_def attempt_def example_store_def
        categories_def getFirstAsync_def select_budget_exact_def select_budget_fallback_def Let_def)
qed

subsection \<open>Resolution of one category\<close>

text \<open>
  C1. On a healthy store whose budget table has at most one row per month and category,
  for every month \<open>M\<close> and every requested category \<open>c\<close> the resolver returns:
  \<open>exact = true\<close> and the amount of the row keyed \<open>(M, c)\<close> when there is one;
  otherwise \<open>exact = false\<close> and the amount of the row of \<open>c\<close> with the greatest month
  up to \<open>M\<close> (there is such a row as soon as \<open>c\<close> has a row with a month up to \<open>M\<close>);
  otherwise \<open>exact = false\<close> and the amount 0.
\<close>

theorem budget_resolution_fallback:
  assumes h: "healthy s" and u: "unique_month_category (budgets s)" and c: "c \<in> set cats"
  shows "\<exists>r. getMonthlyBudgetsWithFallbackStatus s M cats = Inr r \<and>
    (\<forall>b\<in>set (budgets s). b_month b = M \<and> b_category b = c \<longrightarrow>
        exact r c = Some True \<and> amounts r c = Some (b_amount b)) \<and>
    ((\<forall>b\<in>set (budgets s). \<not> (b_month b = M \<and> b_category b = c)) \<longrightarrow>
        exact r c = Some False \<and>
        (\<forall>b\<in>set (budgets s).
            b_category b = c \<and> b_month b \<le> M \<and>
            (\<forall>b'\<in>set (budgets s). b_category b' = c \<and> b_month b' \<le> M \<longrightarrow> b_month b' \<le> b_month b)
            \<longrightarrow> amounts r c = Some (b_amount b)) \<and>
        ((\<exists>b\<in>set (budgets s). b_category b = c \<and> b_month b \<le> M) \<longrightarrow>
           (\<exists>b\<in>set (budgets s). b_category b = c \<and> b_month b \<le> M \<and>
              (\<forall>b'\<in>set (budgets s). b_category b' = c \<and> b_month b' \<le> M \<longrightarrow> b_month b' \<le> b_month b))) \<and>
        ((\<forall>b\<in>set (budgets s). b_category b = c \<longrightarrow> \<not> b_month b \<le> M) \<longrightarrow>
           amounts r c = Some 0))"
proof -
  let ?bs = "budgets s"
  let ?r = "\<lparr>amounts = (\<lambda>c. if c \<in> set cats
                then Some (case select_budget_exact ?bs c M of
                             Some a \<Rightarrow> a
                           | None \<Rightarrow> (case select_budget_fallback ?bs c M of
                                        Some a \<Rightarrow> a | None \<Rightarrow> 0))
                else None),
          exact = (\<lambda>c. if c \<in> set cats
                then Some (select_budget_exact ?bs c M \<noteq> None)
                else None)\<rparr>"
  have run: "getMonthlyBudgetsWithFallbackStatus s M cats = Inr ?r"
    by (rule status_healthy [OF h])
  have step1: "exact ?r c = Some True \<and> amounts ?r c = Some (b_amount b)"
    if "b \<in> set ?bs" "b_month b = M" "b_category b = c" for b
    using select_budget_exact_row [OF u that(1) that(3) that(2)] c by simp
  have none: "select_budget_exact ?bs c M = None"
    if "\<forall>b\<in>set ?bs. \<not> (b_month b = M \<and> b_category b = c)"
    using that by (simp add: select_budget_exact_None)
  have step2a: "exact ?r c = Some False"
    if "\<forall>b\<in>set ?bs. \<not> (b_month b = M \<and> b_category b = c)"
    using none [OF that] c by simp
  have step2b: "amounts ?r c = Some (b_amount b)"
    if "\<forall>b\<in>set ?bs. \<not> (b_month b = M \<and> b_category b = c)"
      and "b \<in> set ?bs" "b_category b = c" "b_month b \<le> M"
      and "\<forall>b'\<in>set ?bs. b_category b' = c \<and> b_month b' \<le> M \<longrightarrow> b_month b' \<le> b_month b" for b
    using none [OF that(1)] select_budget_fallback_latest [OF u that(2) that(3) that(4) that(5)] c
    by simp
  have step2c: "\<exists>b\<in>set ?bs. b_category b = c \<and> b_month b \<le> M \<and>
              (\<forall>b'\<in>set ?bs. b_category b' = c \<and> b_month b' \<le> M \<longrightarrow> b_month b' \<le> b_month b)"
    if "\<exists>b\<in>set ?bs. b_category b = c \<and> b_month b \<le> M"
  proof -
    have "select_budget_fallback ?bs c M \<noteq> None"
      using that by (auto simp: select_budget_fallback_None)
    then obtain a where "select_budget_fallback ?bs c M = Some a" by auto
    from select_budget_fallback_Some [OF this] show ?thesis by blast
  qed
  have step3: "amounts ?r c = Some 0"
    if "\<forall>b\<in>set ?bs. \<not> (b_month b = M \<and> b_category b = c)"
      and "\<forall>b\<in>set ?bs. b_category b = c \<longrightarrow> \<not> b_month b \<le> M"
    using none [OF that(1)] that(2) c by (simp add: select_budget_fallback_None [THEN iffD2])
  show ?thesis
    apply (rule exI [of _ ?r])
    apply (intro conjI impI ballI)
    subgoal by (rule run)
    subgoal for b using step1 [of b] by blast
    subgoal for b using step1 [of b] by blast
    subgoal by (rule step2a)
    subgoal for b using step2b [of b] by blast
    subgoal by (rule step2c)
    subgoal by (rule step3)
    done
qed

theorem budget_resolution_fallback_witness:
  "healthy example_store \<and> unique_month_category (budgets example_store) \<and>
   (\<exists>r. getMonthlyBudgetsWithFallbackStatus example_store ''2024-06'' categories = Inr r \<and>
        exact r ''groceries'' = Some True \<and> amounts r ''groceries'' = Some 80 \<and>
        exact r ''fun'' = Some False \<and> amounts r ''fun'' = Some 60 \<and>
        exact r ''boucherie'' = Some False \<and> amounts r ''boucherie'' = Some 0)"
proof -
  have h: "healthy example_store"
    by (simp add: healthy_def example_store_def)
  have u: "unique_month_category (budgets example_store)"
    by (simp add: unique_month_category_def example_store_def budget_key_def)
  have cs: "''groceries'' \<in> set categories" "''fun'' \<in> set categories"
    "''boucherie'' \<in> set categories"
    by (simp_all add: categories_def)
  have bs: "budgets example_store =
        [\<lparr>b_month = ''2024-01'', b_category = ''fun'', b_amount = 50\<rparr>,
         \<lparr>b_month = ''2024-03'', b_category = ''fun'', b_amount = 60\<rparr>,
         \<lparr>b_month = ''2024-06'', b_category = ''groceries'', b_amount = 80\<rparr>]"
    by (simp add: example_store_def)
  show ?thesis
    using budget_resolution_fallback [OF h u cs(1), of "''2024-06''"]
      budget_resolution_fallback [OF h u cs(2), of "''2024-06''"]
      budget_resolution_fallback [OF h u cs(3), of "''2024-06''"]
    apply (elim exE conjE)
    subgoal for r1 r2 r3
      apply (intro conjI h u)
      apply (rule exI [of _ r1])
      apply (simp add: bs)
      done
    done
qed


subsection \<open>Failure of a look-up\<close>

lemma status_loop_fails:
  "isl (status_loop s M cs r) \<longleftrightarrow> (\<exists>c\<in>set cs. lookup_fails s M c)"
proof (induction cs arbitrary: r)
  case Nil
  show ?case by simp
next
  case (Cons c cs)
  show ?case
    by (simp add: Cons.IH lookup_fails_def Let_def split: sum.splits option.splits)
qed

lemma status_loop_dom:
  "status_loop s M cs r = Inr r' \<Longrightarrow>
   dom (amounts r') = dom (amounts r) \<union> set cs \<and> dom (exact r') = dom (exact r) \<union> set cs"
proof (induction cs arbitrary: r)
  case Nil
  then show ?case by simp
next
  case (Cons c cs)
  from Cons.prems obtain exactRow where
    e: "getFirstAsync s (SelectBudgetExact c M) = Inr exactRow"
    by (cases "getFirstAsync s (SelectBudgetExact c M)") simp_all
  show ?case
  proof (cases exactRow)
    case (Some a)
    let ?r1 = "r\<lparr>exact := (exact r)(c \<mapsto> True), amounts := (amounts r)(c \<mapsto> a)\<rparr>"
    have "status_loop s M cs ?r1 = Inr r'"
      using Cons.prems e Some by (simp add: Let_def)
    from Cons.IH [OF this] show ?thesis by auto
  next
    case None
    from Cons.prems e None obtain fallbackRow where
      f: "getFirstAsync s (SelectBudgetFallback c M) = Inr fallbackRow"
      by (cases "getFirstAsync s (SelectBudgetFallback c M)") (simp_all add: Let_def)
    let ?r1 = "r\<lparr>exact := (exact r)(c \<mapsto> False),
                 amounts := (amounts r)(c \<mapsto> (case fallbackRow of Some a \<Rightarrow> a | None \<Rightarrow> 0))\<rparr>"
    have "status_loop s M cs ?r1 = Inr r'"
      using Cons.prems e None f by (simp add: Let_def)
    from Cons.IH [OF this] show ?thesis by auto
  qed
qed

text \<open>
  C8. Resolution is all or nothing: the call fails exactly when the handle is not
  available or the look-up of some requested category fails, and then no map is
  returned at all; and whenever it returns, both maps have an entry for every requested
  category and for nothing else.
\<close>

theorem budget_resolution_all_or_nothing:
  "(isl (getMonthlyBudgetsWithFallbackStatus s M cats) \<longleftrightarrow>
      isl (getDb s) \<or> (\<exists>c\<in>set cats. lookup_fails s M c)) \<and>
   (\<forall>r. getMonthlyBudgetsWithFallbackStatus s M cats = Inr r \<longrightarrow>
      dom (amounts r) = set cats \<and> dom (exact r) = set cats)"
proof (cases "getDb s")
  case (Inl e)
  then show ?thesis
    by (simp add: getMonthlyBudgetsWithFallbackStatus_def)
next
  case (Inr u)
  have dom: "dom (amounts r) = set cats \<and> dom (exact r) = set cats"
    if "status_loop s M cats \<lparr>amounts = Map.empty, exact = Map.empty\<rparr> = Inr r" for r
    using status_loop_dom [OF that] by simp
  show ?thesis
    using Inr dom
    by (simp add: getMonthlyBudgetsWithFallbackStatus_def status_loop_fails)
qed

theorem budget_resolution_all_or_nothing_witness:
  "isl (getMonthlyBudgetsWithFallbackStatus failing_store ''2024-06'' categories) \<and>
  \<not> isl (getMonthlyBudgetsWithFallbackStatus failing_store ''2024-06'' [''fun'', ''groceries'']) \<and>
  (\<exists>r. getMonthlyBudgetsWithFallbackStatus example_store ''2024-06'' categories = Inr r \<and>
     dom (amounts r) = set categories \<and> dom (exact r) = set categories)"
proof -
  have f: "lookup_fails failing_store ''2024-06'' ''boucherie''"
    by (simp add: lookup_fails_def failing_store_def example_store_def getFirstAsync_def attempt_def
        select_budget_exact_def)
  have g: "\<not> isl (getDb failing_store)"
    by (simp add: failing_store_def example_store_def getDb_def attempt_def)
  have ok: "\<not> lookup_fails failing_store ''2024-06'' c" if "c \<in> set [''fun'', ''groceries'']" for c
    using that
    by (auto simp add: lookup_fails_def failing_store_def example_store_def getFirstAsync_def attempt_def
        select_budget_exact_def)
  have 1: "isl (getMonthlyBudgetsWithFallbackStatus failing_store ''2024-06'' categories)"
    using budget_resolution_all_or_nothing [of failing_store "''2024-06''" categories] f
    by (simp add: categories_def)
  have 2: "\<not> isl (getMonthlyBudgetsWithFallbackStatus failing_store ''2024-06'' [''fun'', ''groceries''])"
    using budget_resolution_all_or_nothing [of failing_store "''2024-06''" "[''fun'', ''groceries'']"] g ok
    by simp
  have h: "\<not> isl (getDb example_store)"
    by (simp add: example_store_def getDb_def attempt_def)
  have ok': "\<not> lookup_fails example_store ''2024-06'' c" for c
    by (simp add: lookup_fails_def getFirstAsync_def healthy_attempt [OF example_healthy] split: option.splits)
  have "\<not> isl (getMonthlyBudgetsWithFallbackStatus example_store ''2024-06'' categories)"
    using budget_resolution_all_or_nothing [of example_store "''2024-06''" categories] h ok'
    by simp
  then obtain r where r: "getMonthlyBudgetsWithFallbackStatus example_store ''2024-06'' categories = Inr r"
    by (cases "getMonthlyBudgetsWithFallbackStatus example_store ''2024-06'' categories") auto
  have 3: "dom (amounts r) = set categories \<and> dom (exact r) = set categories"
    using budget_resolution_all_or_nothing [of example_store "''2024-06''" categories] r by blast
  show ?thesis using 1 2 3 r by blast
qed


subsection \<open>Upsert and delete of a budget row\<close>

lemma budget_key_amount_update [simp]: "budget_key (b\<lparr>b_amount := x\<rparr>) = budget_key b"
  by (simp add: budget_key_def)

lemma budget_key_eq: "budget_key b = (M, c) \<longleftrightarrow> b_month b = M \<and> b_category b = c"
  by (auto simp: budget_key_def)

lemma keys_insert_budget_on_conflict:
  "map budget_key (insert_budget_on_conflict bs M c x) =
     (if (M, c) \<in> set (map budget_key bs) then map budget_key bs else map budget_key bs @ [(M, c)])"
proof -
  have "map (budget_key \<circ> (\<lambda>b. if budget_key b = (M, c) then b\<lparr>b_amount := x\<rparr> else b)) bs
        = map budget_key bs"
    by (rule map_cong) auto
  then show ?thesis
    by (simp add: insert_budget_on_conflict_def budget_key_def)
qed

lemma unique_insert_budget_on_conflict:
  "unique_month_category bs \<Longrightarrow> unique_month_category (insert_budget_on_conflict bs M c x)"
  by (simp add: unique_month_category_def keys_insert_budget_on_conflict)

lemma overwrite_row:
  "b_month b = M \<Longrightarrow> b_category b = c \<Longrightarrow>
   b\<lparr>b_amount := x\<rparr> = \<lparr>b_month = M, b_category = c, b_amount = x\<rparr>"
  by (cases b) simp

lemma filter_key_overwrite:
  "distinct (map budget_key bs) \<Longrightarrow> (M, c) \<in> set (map budget_key bs) \<Longrightarrow>
   filter (\<lambda>b. b_month b = M \<and> b_category b = c)
     (map (\<lambda>b. if budget_key b = (M, c) then b\<lparr>b_amount := x\<rparr> else b) bs)
   = [\<lparr>b_month = M, b_category = c, b_amount = x\<rparr>]"
proof (induction bs)
  case Nil
  then show ?case by simp
next
  case (Cons b bs)
  show ?case
  proof (cases "budget_key b = (M, c)")
    case True
    then have k: "b_month b = M" "b_category b = c"
      by (simp_all add: budget_key_eq)
    have "(M, c) \<notin> set (map budget_key bs)"
      using Cons.prems(1) True by simp
    then have "\<forall>b'\<in>set bs. budget_key b' \<noteq> (M, c)"
      by (metis image_eqI set_map)
    then have rest: "filter (\<lambda>b. b_month b = M \<and> b_category b = c)
        (map (\<lambda>b. if budget_key b = (M, c) then b\<lparr>b_amount := x\<rparr> else b) bs) = []"
      by (auto simp: filter_empty_conv budget_key_eq)
    show ?thesis
      using True k rest by (simp add: overwrite_row)
  next
    case False
    then have "(M, c) \<in> set (map budget_key bs)"
      using Cons.prems(2) by auto
    moreover have "distinct (map budget_key bs)"
      using Cons.prems(1) by simp
    ultimately show ?thesis
      using False Cons.IH by (simp add: budget_key_eq)
  qed
qed

lemma filter_key_insert_budget_on_conflict:
  assumes "unique_month_category bs"
  shows "filter (\<lambda>b. b_month b = M \<and> b_category b = c) (insert_budget_on_conflict bs M c x)
         = [\<lparr>b_month = M, b_category = c, b_amount = x\<rparr>]"
proof (cases "(M, c) \<in> set (map budget_key bs)")
  case True
  then show ?thesis
    using assms filter_key_overwrite [of bs M c x]
    by (simp add: insert_budget_on_conflict_def unique_month_category_def)
next
  case False
  then have "\<forall>b\<in>set bs. \<not> (b_month b = M \<and> b_category b = c)"
    by (auto simp: budget_key_def image_iff)
  then have "filter (\<lambda>b. b_month b = M \<and> b_category b = c) bs = []"
    by (simp add: filter_empty_conv)
  then show ?thesis
    using False by (simp add: insert_budget_on_conflict_def)
qed

lemma filter_others_insert_budget_on_conflict:
  "filter (\<lambda>b. \<not> (b_month b = M \<and> b_category b = c)) (insert_budget_on_conflict bs M c x)
   = filter (\<lambda>b. \<not> (b_month b = M \<and> b_category b = c)) bs"
proof -
  have "filter (\<lambda>b. \<not> (b_month b = M \<and> b_category b = c))
          (map (\<lambda>b. if budget_key b = (M, c) then b\<lparr>b_amount := x\<rparr> else b) bs)
        = filter (\<lambda>b. \<not> (b_month b = M \<and> b_category b = c)) bs"
    by (induction bs) (auto simp: budget_key_eq)
  then show ?thesis
    by (simp add: insert_budget_on_conflict_def)
qed

lemma amount_after_insert_budget_on_conflict:
  assumes "b \<in> set (insert_budget_on_conflict bs M c x)" and "budget_key b = (M, c)"
  shows "b_amount b = x"
proof (cases "(M, c) \<in> set (map budget_key bs)")
  case True
  with assms(1) obtain b0 where
    b0: "b0 \<in> set bs" "b = (if budget_key b0 = (M, c) then b0\<lparr>b_amount := x\<rparr> else b0)"
    by (auto simp: insert_budget_on_conflict_def)
  show ?thesis
  proof (cases "budget_key b0 = (M, c)")
    case True
    with b0(2) show ?thesis by simp
  next
    case False
    with b0(2) assms(2) show ?thesis by simp
  qed
next
  case False
  with assms(1) have "b \<in> set bs \<or> b = \<lparr>b_month = M, b_category = c, b_amount = x\<rparr>"
    by (auto simp: insert_budget_on_conflict_def)
  moreover have "b \<notin> set bs"
    using False assms(2) by (metis image_eqI set_map)
  ultimately show ?thesis by auto
qed

lemma insert_budget_on_conflict_idem:
  "insert_budget_on_conflict (insert_budget_on_conflict bs M c x) M c x
   = insert_budget_on_conflict bs M c x"
proof -
  let ?bs' = "insert_budget_on_conflict bs M c x"
  have present: "(M, c) \<in> set (map budget_key ?bs')"
    by (simp add: keys_insert_budget_on_conflict)
  have "(if budget_key b = (M, c) then b\<lparr>b_amount := x\<rparr> else b) = b" if "b \<in> set ?bs'" for b
    using amount_after_insert_budget_on_conflict [OF that] by (cases b) auto
  then have same: "map (\<lambda>b. if budget_key b = (M, c) then b\<lparr>b_amount := x\<rparr> else b) ?bs' = ?bs'"
    by (rule map_idI)
  show ?thesis
    using present same by (subst insert_budget_on_conflict_def) simp
qed

lemma healthy_upsertBudget:
  "healthy s \<Longrightarrow>
   upsertBudget s M c x = Inr (s\<lparr>budgets := insert_budget_on_conflict (budgets s) M c x\<rparr>)"
  by (simp add: upsertBudget_def healthy_getDb healthy_attempt)

lemma healthy_deleteBudgetForMonth:
  "healthy s \<Longrightarrow>
   deleteBudgetForMonth s M c =
     Inr (s\<lparr>budgets := filter (\<lambda>b. \<not> (b_month b = M \<and> b_category b = c)) (budgets s)\<rparr>)"
  by (simp add: deleteBudgetForMonth_def healthy_getDb healthy_attempt)

text \<open>
  C4. \<^verbatim>\<open>upsertBudget\<close> is an idempotent upsert: on a healthy store whose budget table
  has at most one row per month and category, the call succeeds, a second call with the
  same arguments succeeds and leaves the state as the first call left it, and the table
  then holds exactly one row for \<open>(M, c)\<close>, with amount \<open>x\<close>; the other rows are
  untouched and the uniqueness constraint still holds.
\<close>

theorem upsertBudget_idempotent:
  assumes h: "healthy s" and u: "unique_month_category (budgets s)"
  shows "\<exists>s1. upsertBudget s M c x = Inr s1 \<and>
              upsertBudget s1 M c x = Inr s1 \<and>
              filter (\<lambda>b. b_month b = M \<and> b_category b = c) (budgets s1)
                = [\<lparr>b_month = M, b_category = c, b_amount = x\<rparr>] \<and>
              filter (\<lambda>b. \<not> (b_month b = M \<and> b_category b = c)) (budgets s1)
                = filter (\<lambda>b. \<not> (b_month b = M \<and> b_category b = c)) (budgets s) \<and>
              unique_month_category (budgets s1)"
proof -
  let ?s1 = "s\<lparr>budgets := insert_budget_on_conflict (budgets s) M c x\<rparr>"
  have h1: "healthy ?s1"
    using h by (simp add: healthy_budgets_update)
  have first: "upsertBudget s M c x = Inr ?s1"
    by (rule healthy_upsertBudget [OF h])
  have second: "upsertBudget ?s1 M c x = Inr ?s1"
    by (simp add: healthy_upsertBudget [OF h1] insert_budget_on_conflict_idem)
  show ?thesis
    using first second filter_key_insert_budget_on_conflict [OF u, of M c x]
      filter_others_insert_budget_on_conflict [of M c "budgets s" x]
      unique_insert_budget_on_conflict [OF u, of M c x]
    by simp
qed

theorem upsertBudget_idempotent_witness:
  "healthy example_store \<and> unique_month_category (budgets example_store) \<and>
   (\<exists>s1. upsertBudget example_store ''2024-06'' ''groceries'' 95 = Inr s1 \<and>
         upsertBudget s1 ''2024-06'' ''groceries'' 95 = Inr s1 \<and>
         filter (\<lambda>b. b_month b = ''2024-06'' \<and> b_category b = ''groceries'') (budgets s1)
           = [\<lparr>b_month = ''2024-06'', b_category = ''groceries'', b_amount = 95\<rparr>])"
proof -
  have h: "healthy example_store"
    by (simp add: healthy_def example_store_def)
  have u: "unique_month_category (budgets example_store)"
    by (simp add: unique_month_category_def example_store_def budget_key_def)
  show ?thesis
    using upsertBudget_idempotent [OF h u, of "''2024-06''" "''groceries''" 95]
    apply (elim exE conjE)
    subgoal for s1
      apply (intro conjI h u)
      apply (rule exI [of _ s1])
      apply simp
      done
    done
qed

lemma unique_filter: "unique_month_category bs \<Longrightarrow> unique_month_category (filter P bs)"
  by (simp add: unique_month_category_def distinct_map_filter)

lemma select_budget_exact_after_insert:
  "select_budget_exact (insert_budget_on_conflict bs M c x) c M = Some x"
proof -
  let ?bs' = "insert_budget_on_conflict bs M c x"
  have "(M, c) \<in> set (map budget_key ?bs')"
    by (simp add: keys_insert_budget_on_conflict)
  then have "\<exists>b\<in>set ?bs'. b_month b = M \<and> b_category b = c"
    by (auto simp: budget_key_def)
  then have "select_budget_exact ?bs' c M \<noteq> None"
    by (simp add: select_budget_exact_None)
  then obtain a where a: "select_budget_exact ?bs' c M = Some a" by auto
  from select_budget_exact_Some [OF a] obtain b where
    b: "b \<in> set ?bs'" "b_category b = c" "b_month b = M" "b_amount b = a" by blast
  have "b_amount b = x"
    using amount_after_insert_budget_on_conflict [OF b(1)] b(2,3) by (simp add: budget_key_def)
  with a b(4) show ?thesis by simp
qed

lemma delete_after_insert:
  "filter (\<lambda>b. \<not> (b_month b = M \<and> b_category b = c)) (insert_budget_on_conflict bs M c x)
   = filter (\<lambda>b. \<not> (b_month b = M \<and> b_category b = c)) bs"
  by (rule filter_others_insert_budget_on_conflict)

lemma select_budget_exact_after_delete:
  "select_budget_exact (filter (\<lambda>b. \<not> (b_month b = M \<and> b_category b = c)) bs) c M = None"
  by (simp add: select_budget_exact_None)

lemma select_budget_fallback_after_delete_latest:
  assumes u: "unique_month_category bs"
    and b: "b \<in> set bs" "b_category b = c" "b_month b < M"
    and top: "\<forall>b'\<in>set bs. b_category b' = c \<and> b_month b' < M \<longrightarrow> b_month b' \<le> b_month b"
  shows "select_budget_fallback (filter (\<lambda>b. \<not> (b_month b = M \<and> b_category b = c)) bs) c M
         = Some (b_amount b)"
proof -
  let ?bs' = "filter (\<lambda>b. \<not> (b_month b = M \<and> b_category b = c)) bs"
  have u': "unique_month_category ?bs'"
    by (rule unique_filter [OF u])
  have in': "b \<in> set ?bs'"
    using b by auto
  have le: "b_month b \<le> M"
    using b(3) by simp
  have top': "\<forall>b'\<in>set ?bs'. b_category b' = c \<and> b_month b' \<le> M \<longrightarrow> b_month b' \<le> b_month b"
  proof (intro ballI impI)
    fix b' assume "b' \<in> set ?bs'" and k: "b_category b' = c \<and> b_month b' \<le> M"
    then have "b' \<in> set bs" and "b_month b' \<noteq> M" by auto
    with k have "b_month b' < M" by (simp add: less_le)
    with top \<open>b' \<in> set bs\<close> k show "b_month b' \<le> b_month b" by blast
  qed
  show ?thesis
    by (rule select_budget_fallback_latest [OF u' in' b(2) le top'])
qed

lemma select_budget_fallback_after_delete_none:
  assumes "\<forall>b\<in>set bs. b_category b = c \<longrightarrow> \<not> b_month b < M"
  shows "select_budget_fallback (filter (\<lambda>b. \<not> (b_month b = M \<and> b_category b = c)) bs) c M = None"
proof -
  have "\<not> b_month b \<le> M"
    if "b \<in> set (filter (\<lambda>b. \<not> (b_month b = M \<and> b_category b = c)) bs)" "b_category b = c" for b
  proof -
    from that have "b \<in> set bs" and "b_month b \<noteq> M" by auto
    moreover from assms \<open>b \<in> set bs\<close> that(2) have "\<not> b_month b < M" by blast
    ultimately show ?thesis by auto
  qed
  then show ?thesis
    by (simp only: select_budget_fallback_None) blast
qed

lemma status_healthy_at:
  assumes "healthy s" and "c \<in> set cs"
  shows "\<exists>r. getMonthlyBudgetsWithFallbackStatus s m cs = Inr r \<and>
     exact r c = Some (select_budget_exact (budgets s) c m \<noteq> None) \<and>
     amounts r c = Some (case select_budget_exact (budgets s) c m of
                           Some a \<Rightarrow> a
                         | None \<Rightarrow> (case select_budget_fallback (budgets s) c m of
                                      Some a \<Rightarrow> a | None \<Rightarrow> 0))"
  using assms(2) by (simp add: status_healthy [OF assms(1)])

text \<open>
  C5. Reset after set goes back to the fallback. On a healthy store with the uniqueness
  constraint, after \<^verbatim>\<open>upsertBudget(M, c, x)\<close> the resolver returns amount \<open>x\<close> and
  \<open>exact = true\<close> for \<open>c\<close>; a following \<^verbatim>\<open>deleteBudgetForMonth(M, c)\<close> leaves the
  original state without its \<open>(M, c)\<close> row, where the resolver returns \<open>exact = false\<close>
  and the amount of the latest row of \<open>c\<close> before \<open>M\<close>, or 0 when \<open>c\<close> has no earlier
  row. On a state with no \<open>(M, c)\<close> row \<^verbatim>\<open>deleteBudgetForMonth\<close> succeeds and changes
  nothing.
\<close>

theorem reset_after_set_roundtrip:
  assumes h: "healthy s" and u: "unique_month_category (budgets s)" and c: "c \<in> set cats"
  shows "\<exists>s1 s2 r1 r2.
     upsertBudget s M c x = Inr s1 \<and>
     getMonthlyBudgetsWithFallbackStatus s1 M cats = Inr r1 \<and>
     amounts r1 c = Some x \<and> exact r1 c = Some True \<and>
     deleteBudgetForMonth s1 M c = Inr s2 \<and>
     s2 = s\<lparr>budgets := filter (\<lambda>b. \<not> (b_month b = M \<and> b_category b = c)) (budgets s)\<rparr> \<and>
     getMonthlyBudgetsWithFallbackStatus s2 M cats = Inr r2 \<and>
     exact r2 c = Some False \<and>
     (\<forall>b\<in>set (budgets s).
        b_category b = c \<and> b_month b < M \<and>
        (\<forall>b'\<in>set (budgets s). b_category b' = c \<and> b_month b' < M \<longrightarrow> b_month b' \<le> b_month b)
        \<longrightarrow> amounts r2 c = Some (b_amount b)) \<and>
     ((\<forall>b\<in>set (budgets s). b_category b = c \<longrightarrow> \<not> b_month b < M) \<longrightarrow> amounts r2 c = Some 0) \<and>
     ((\<forall>b\<in>set (budgets s). \<not> (b_month b = M \<and> b_category b = c)) \<longrightarrow>
        deleteBudgetForMonth s M c = Inr s \<and> s2 = s)"
proof -
  let ?gone = "filter (\<lambda>b. \<not> (b_month b = M \<and> b_category b = c)) (budgets s)"
  let ?s1 = "s\<lparr>budgets := insert_budget_on_conflict (budgets s) M c x\<rparr>"
  let ?s2 = "s\<lparr>budgets := ?gone\<rparr>"
  have h1: "healthy ?s1" and h2: "healthy ?s2"
    using h by (simp_all add: healthy_budgets_update)
  obtain r1 where r1: "getMonthlyBudgetsWithFallbackStatus ?s1 M cats = Inr r1"
    and a1: "amounts r1 c = Some x" and e1: "exact r1 c = Some True"
    using c by (simp add: status_healthy [OF h1] select_budget_exact_after_insert)
  have del: "deleteBudgetForMonth ?s1 M c = Inr ?s2"
    using delete_after_insert [of M c "budgets s" x]
    by (simp add: healthy_deleteBudgetForMonth [OF h1])
  have g: "budgets ?s2 = ?gone"
    by simp
  from status_healthy_at [OF h2 c, of M] obtain r2 where
    r2: "getMonthlyBudgetsWithFallbackStatus ?s2 M cats = Inr r2"
    and e2': "exact r2 c = Some (select_budget_exact ?gone c M \<noteq> None)"
    and a2': "amounts r2 c = Some (case select_budget_exact ?gone c M of
                           Some a \<Rightarrow> a
                         | None \<Rightarrow> (case select_budget_fallback ?gone c M of
                                      Some a \<Rightarrow> a | None \<Rightarrow> 0))"
    unfolding g by blast
  have e2: "exact r2 c = Some False"
    using e2' by (simp only: select_budget_exact_after_delete) simp
  have a2'': "amounts r2 c = Some (case select_budget_fallback ?gone c M of
                                      Some a \<Rightarrow> a | None \<Rightarrow> 0)"
    using a2' by (simp only: select_budget_exact_after_delete option.case)
  have a2: "amounts r2 c = Some (b_amount b)"
    if "b \<in> set (budgets s)" "b_category b = c" "b_month b < M"
      "\<forall>b'\<in>set (budgets s). b_category b' = c \<and> b_month b' < M \<longrightarrow> b_month b' \<le> b_month b" for b
    using a2'' by (simp only: select_budget_fallback_after_delete_latest [OF u that] option.case)
  have z2: "amounts r2 c = Some 0"
    if "\<forall>b\<in>set (budgets s). b_category b = c \<longrightarrow> \<not> b_month b < M"
    using a2'' by (simp only: select_budget_fallback_after_delete_none [OF that] option.case)
  have noop: "deleteBudgetForMonth s M c = Inr s \<and> ?s2 = s"
    if "\<forall>b\<in>set (budgets s). \<not> (b_month b = M \<and> b_category b = c)"
  proof -
    have "?gone = budgets s"
      using that by (simp add: filter_id_conv)
    then show ?thesis
      by (simp add: healthy_deleteBudgetForMonth [OF h])
  qed
  show ?thesis
    apply (rule exI [of _ ?s1], rule exI [of _ ?s2], rule exI [of _ r1], rule exI [of _ r2])
    apply (intro conjI impI ballI)
    subgoal by (rule healthy_upsertBudget [OF h])
    subgoal by (rule r1)
    subgoal by (rule a1)
    subgoal by (rule e1)
    subgoal by (rule del)
    subgoal by (rule refl)
    subgoal by (rule r2)
    subgoal by (rule e2)
    subgoal for b using a2 [of b] by blast
    subgoal by (rule z2)
    subgoal using noop by blast
    subgoal using noop by blast
    done
qed

theorem reset_after_set_roundtrip_witness:
  "healthy example_store \<and> unique_month_category (budgets example_store) \<and>
   ''fun'' \<in> set categories \<and>
   (\<exists>s1 s2 r1 r2.
      upsertBudget example_store ''2024-06'' ''fun'' 80 = Inr s1 \<and>
      getMonthlyBudgetsWithFallbackStatus s1 ''2024-06'' categories = Inr r1 \<and>
      amounts r1 ''fun'' = Some 80 \<and> exact r1 ''fun'' = Some True \<and>
      deleteBudgetForMonth s1 ''2024-06'' ''fun'' = Inr s2 \<and>
      getMonthlyBudgetsWithFallbackStatus s2 ''2024-06'' categories = Inr r2 \<and>
      amounts r2 ''fun'' = Some 60 \<and> exact r2 ''fun'' = Some False \<and>
      s2 = example_store \<and>
      deleteBudgetForMonth example_store ''2024-06'' ''fun'' = Inr example_store)"
proof -
  have h: "healthy example_store"
    by (simp add: healthy_def example_store_def)
  have u: "unique_month_category (budgets example_store)"
    by (simp add: unique_month_category_def example_store_def budget_key_def)
  have c: "''fun'' \<in> set categories"
    by (simp add: categories_def)
  have bs: "budgets example_store =
        [\<lparr>b_month = ''2024-01'', b_category = ''fun'', b_amount = 50\<rparr>,
         \<lparr>b_month = ''2024-03'', b_category = ''fun'', b_amount = 60\<rparr>,
         \<lparr>b_month = ''2024-06'', b_category = ''groceries'', b_amount = 80\<rparr>]"
    by (simp add: example_store_def)
  show ?thesis
    using reset_after_set_roundtrip [OF h u c, of "''2024-06''" 80]
    apply (elim exE conjE)
    subgoal for s1 s2 r1 r2
      apply (intro conjI h u c)
      apply (rule exI [of _ s1], rule exI [of _ s2], rule exI [of _ r1], rule exI [of _ r2])
      apply (simp add: bs)
      done
    done
qed

subsection \<open>Totals by category\<close>

lemma keys_add_to_group:
  "set (map fst (add_to_group c a gs)) = insert c (set (map fst gs))"
  by (induction c a gs rule: add_to_group.induct) auto

lemma distinct_add_to_group:
  "distinct (map fst gs) \<Longrightarrow> distinct (map fst (add_to_group c a gs))"
proof (induction c a gs rule: add_to_group.induct)
  case (1 c a)
  then show ?case by simp
next
  case (2 c a c' tot groups)
  then show ?case
    using keys_add_to_group [of c a groups] by auto
qed

lemma map_of_add_to_group:
  "map_of (add_to_group c a gs) =
     (map_of gs)(c \<mapsto> (case map_of gs c of None \<Rightarrow> a | Some t \<Rightarrow> t + a))"
  by (induction c a gs rule: add_to_group.induct) (auto simp: fun_eq_iff)

lemma total_add_to_group:
  "(case map_of (add_to_group k a gs) c of None \<Rightarrow> 0 | Some v \<Rightarrow> v) =
   (case map_of gs c of None \<Rightarrow> 0 | Some v \<Rightarrow> v) + (if c = k then a else 0)"
  by (simp add: map_of_add_to_group split: option.splits)

lemma category_sum_Cons:
  "category_sum (t # ts) c = (if c = t_category t then t_amount t else 0) + category_sum ts c"
  by (auto simp: category_sum_def)

lemma keys_foldl_groups:
  "set (map fst (foldl (\<lambda>groups t. add_to_group (t_category t) (t_amount t) groups) gs ts))
     = set (map fst gs) \<union> t_category ` set ts"
proof (induction ts arbitrary: gs)
  case Nil
  show ?case by simp
next
  case (Cons t ts)
  show ?case
    using keys_add_to_group [of "t_category t" "t_amount t" gs]
      Cons.IH [of "add_to_group (t_category t) (t_amount t) gs"]
    by auto
qed

lemma distinct_foldl_groups:
  "distinct (map fst gs) \<Longrightarrow>
   distinct (map fst (foldl (\<lambda>groups t. add_to_group (t_category t) (t_amount t) groups) gs ts))"
proof (induction ts arbitrary: gs)
  case Nil
  then show ?case by simp
next
  case (Cons t ts)
  show ?case
    using Cons.IH [OF distinct_add_to_group [OF Cons.prems]] by simp
qed

lemma total_foldl_groups:
  "c \<in> set (map fst gs) \<union> t_category ` set ts \<Longrightarrow>
   map_of (foldl (\<lambda>groups t. add_to_group (t_category t) (t_amount t) groups) gs ts) c =
     Some ((case map_of gs c of None \<Rightarrow> 0 | Some v \<Rightarrow> v) + category_sum ts c)"
proof (induction ts arbitrary: gs)
  case Nil
  then have "map_of gs c \<noteq> None"
    by (simp add: map_of_eq_None_iff)
  then show ?case
    by (auto simp: category_sum_def)
next
  case (Cons t ts)
  let ?gs' = "add_to_group (t_category t) (t_amount t) gs"
  have "c \<in> set (map fst ?gs') \<union> t_category ` set ts"
    using Cons.prems keys_add_to_group [of "t_category t" "t_amount t" gs] by auto
  from Cons.IH [OF this] show ?case
    by (simp add: total_add_to_group category_sum_Cons)
qed

lemma group_by_category_sum_correct:
  "distinct (map fst (group_by_category_sum ts)) \<and>
   set (map fst (group_by_category_sum ts)) = t_category ` set ts \<and>
   (\<forall>(c, tot)\<in>set (group_by_category_sum ts). tot = category_sum ts c)"
proof -
  let ?gs = "group_by_category_sum ts"
  have d: "distinct (map fst ?gs)"
    using distinct_foldl_groups [of "[]" ts] by (simp add: group_by_category_sum_def)
  have k: "set (map fst ?gs) = t_category ` set ts"
    using keys_foldl_groups [of "[]" ts] by (simp add: group_by_category_sum_def)
  have "tot = category_sum ts c" if "(c, tot) \<in> set ?gs" for c tot
  proof -
    have "map_of ?gs c = Some tot"
      using d that by simp
    moreover have "c \<in> t_category ` set ts"
      using k that by (metis fst_conv image_eqI set_map)
    then have "map_of ?gs c = Some (category_sum ts c)"
      using total_foldl_groups [of c "[]" ts] by (simp add: group_by_category_sum_def)
    ultimately show ?thesis by simp
  qed
  with d k show ?thesis by auto
qed

lemma select_category_totals_correct:
  "distinct (map fst (select_category_totals ts ms me)) \<and>
   set (map fst (select_category_totals ts ms me))
     = t_category ` {t \<in> set ts. ms \<le> t_date t \<and> t_date t < me} \<and>
   (\<forall>(c, tot)\<in>set (select_category_totals ts ms me).
      tot = sum_list (map t_amount
              (filter (\<lambda>t. t_category t = c \<and> ms \<le> t_date t \<and> t_date t < me) ts)))"
proof -
  let ?in = "filter (\<lambda>t. ms \<le> t_date t \<and> t_date t < me) ts"
  have s: "set ?in = {t \<in> set ts. ms \<le> t_date t \<and> t_date t < me}"
    by simp
  have c: "category_sum ?in c =
      sum_list (map t_amount (filter (\<lambda>t. t_category t = c \<and> ms \<le> t_date t \<and> t_date t < me) ts))" for c
    by (simp add: category_sum_def conj_commute)
  show ?thesis
    using group_by_category_sum_correct [of ?in]
    unfolding select_category_totals_def s c by simp
qed

lemma healthy_getMonthlyCategoryTotals:
  "healthy s \<Longrightarrow>
   getMonthlyCategoryTotals s ms me = Inr (select_category_totals (transactions s) ms me)"
  by (simp add: getMonthlyCategoryTotals_def healthy_getDb healthy_attempt)

text \<open>
  C2. On a healthy store, for all date strings \<open>monthStart\<close> and \<open>monthEnd\<close>,
  \<^verbatim>\<open>getMonthlyCategoryTotals\<close> returns one row for each category that has a transaction
  with \<open>monthStart \<le> date < monthEnd\<close>, and no other row; the total of a row is the sum
  of the amounts of exactly the transactions of its category in that half-open range, so
  a transaction dated \<open>monthStart\<close> counts and one dated \<open>monthEnd\<close> does not.
\<close>

theorem monthly_category_totals:
  assumes "healthy s"
  shows "\<exists>totals. getMonthlyCategoryTotals s monthStart monthEnd = Inr totals \<and>
     distinct (map fst totals) \<and>
     set (map fst totals)
       = t_category ` {t \<in> set (transactions s). monthStart \<le> t_date t \<and> t_date t < monthEnd} \<and>
     (\<forall>(c, tot)\<in>set totals.
        tot = sum_list (map t_amount
                (filter (\<lambda>t. t_category t = c \<and> monthStart \<le> t_date t \<and> t_date t < monthEnd)
                   (transactions s))))"
  using select_category_totals_correct [of "transactions s" monthStart monthEnd]
  by (simp add: healthy_getMonthlyCategoryTotals [OF assms])

theorem monthly_category_totals_witness:
  "healthy example_store \<and>
   getMonthlyCategoryTotals example_store ''2024-06-01'' ''2024-07-01''
     = Inr [(''fun'', 25 / 2), (''boucherie'', 12)]"
proof -
  have h: "healthy example_store"
    by (simp add: healthy_def example_store_def)
  show ?thesis
    using monthly_category_totals [OF h, of "''2024-06-01''" "''2024-07-01''"] h
    by (simp add: getMonthlyCategoryTotals_def getDb_def attempt_def example_store_def
        select_category_totals_def group_by_category_sum_def)
qed


subsection \<open>Deleting transactions\<close>

lemma healthy_deleteTransactions:
  "healthy s \<Longrightarrow>
   deleteTransactions s ids = Inr (s\<lparr>transactions := filter (\<lambda>t. t_id t \<notin> set ids) (transactions s)\<rparr>)"
  by (cases ids) (simp_all add: deleteTransactions_def healthy_getDb healthy_attempt)

text \<open>
  C6. \<^verbatim>\<open>deleteTransactions\<close> with an empty list of ids returns the state unchanged on
  every store, available or not. On a healthy store, for every list of ids, it succeeds
  and the new state is the old one with exactly the transactions whose id is in the list
  removed: a transaction stays if and only if its id is not listed, nothing else changes,
  and the totals computed afterwards are the sums over the transactions that stayed.
\<close>

theorem deleteTransactions_exact:
  "deleteTransactions s [] = Inr s \<and>
   (healthy s \<longrightarrow>
     (\<exists>s'. deleteTransactions s ids = Inr s' \<and>
        s' = s\<lparr>transactions := filter (\<lambda>t. t_id t \<notin> set ids) (transactions s)\<rparr> \<and>
        (\<forall>t\<in>set (transactions s). t \<in> set (transactions s') \<longleftrightarrow> t_id t \<notin> set ids) \<and>
        set (transactions s') \<subseteq> set (transactions s) \<and>
        (\<exists>totals. getMonthlyCategoryTotals s' monthStart monthEnd = Inr totals \<and>
           distinct (map fst totals) \<and>
           set (map fst totals)
             = t_category ` {t \<in> set (transactions s).
                  t_id t \<notin> set ids \<and> monthStart \<le> t_date t \<and> t_date t < monthEnd} \<and>
           (\<forall>(c, tot)\<in>set totals.
              tot = sum_list (map t_amount
                      (filter (\<lambda>t. t_id t \<notin> set ids \<and> t_category t = c \<and>
                                   monthStart \<le> t_date t \<and> t_date t < monthEnd)
                         (transactions s)))))))"
proof (intro conjI impI)
  show "deleteTransactions s [] = Inr s"
    by (simp add: deleteTransactions_def)
next
  assume h: "healthy s"
  let ?left = "filter (\<lambda>t. t_id t \<notin> set ids) (transactions s)"
  let ?s' = "s\<lparr>transactions := ?left\<rparr>"
  have h': "healthy ?s'"
    using h by (simp add: healthy_transactions_update)
  have run: "getMonthlyCategoryTotals ?s' monthStart monthEnd
      = Inr (select_category_totals ?left monthStart monthEnd)"
    using healthy_getMonthlyCategoryTotals [OF h', of monthStart monthEnd] by simp
  have keys: "t_category ` {t \<in> set ?left. monthStart \<le> t_date t \<and> t_date t < monthEnd}
      = t_category ` {t \<in> set (transactions s).
                  t_id t \<notin> set ids \<and> monthStart \<le> t_date t \<and> t_date t < monthEnd}"
    by auto
  have sums: "filter (\<lambda>t. t_category t = c \<and> monthStart \<le> t_date t \<and> t_date t < monthEnd) ?left
      = filter (\<lambda>t. t_id t \<notin> set ids \<and> t_category t = c \<and>
                                   monthStart \<le> t_date t \<and> t_date t < monthEnd) (transactions s)" for c
    by (simp add: conj_commute conj_left_commute)
  have totals: "\<exists>totals. getMonthlyCategoryTotals ?s' monthStart monthEnd = Inr totals \<and>
           distinct (map fst totals) \<and>
           set (map fst totals)
             = t_category ` {t \<in> set (transactions s).
                  t_id t \<notin> set ids \<and> monthStart \<le> t_date t \<and> t_date t < monthEnd} \<and>
           (\<forall>(c, tot)\<in>set totals.
              tot = sum_list (map t_amount
                      (filter (\<lambda>t. t_id t \<notin> set ids \<and> t_category t = c \<and>
                                   monthStart \<le> t_date t \<and> t_date t < monthEnd)
                         (transactions s))))"
    using select_category_totals_correct [of ?left monthStart monthEnd]
    unfolding run keys sums by blast
  show "\<exists>s'. deleteTransactions s ids = Inr s' \<and>
        s' = s\<lparr>transactions := filter (\<lambda>t. t_id t \<notin> set ids) (transactions s)\<rparr> \<and>
        (\<forall>t\<in>set (transactions s). t \<in> set (transactions s') \<longleftrightarrow> t_id t \<notin> set ids) \<and>
        set (transactions s') \<subseteq> set (transactions s) \<and>
        (\<exists>totals. getMonthlyCategoryTotals s' monthStart monthEnd = Inr totals \<and>
           distinct (map fst totals) \<and>
           set (map fst totals)
             = t_category ` {t \<in> set (transactions s).
                  t_id t \<notin> set ids \<and> monthStart \<le> t_date t \<and> t_date t < monthEnd} \<and>
           (\<forall>(c, tot)\<in>set totals.
              tot = sum_list (map t_amount
                      (filter (\<lambda>t. t_id t \<notin> set ids \<and> t_category t = c \<and>
                                   monthStart \<le> t_date t \<and> t_date t < monthEnd)
                         (transactions s)))))"
    apply (rule exI [of _ ?s'])
    apply (intro conjI)
    subgoal by (rule healthy_deleteTransactions [OF h])
    subgoal by (rule refl)
    subgoal by simp
    subgoal by auto
    subgoal by (rule totals)
    done
qed

theorem deleteTransactions_exact_witness:
  "healthy example_store \<and>
   (\<exists>s'. deleteTransactions example_store [2, 5, 99] = Inr s' \<and>
      map t_id (transactions s') = [1, 3, 4] \<and>
      getMonthlyCategoryTotals s' ''2024-06-01'' ''2024-07-01'' = Inr [(''fun'', 10)]) \<and>
   deleteTransactions (example_store\<lparr>web := True\<rparr>) [] = Inr (example_store\<lparr>web := True\<rparr>)"
proof -
  have h: "healthy example_store"
    by (simp add: healthy_def example_store_def)
  show ?thesis
    using deleteTransactions_exact [of example_store "[2, 5, 99]" "''2024-06-01''" "''2024-07-01''"]
      deleteTransactions_exact [of "example_store\<lparr>web := True\<rparr>" "[]" "[]" "[]"] h
    by (simp add: getMonthlyCategoryTotals_def getDb_def attempt_def example_store_def
        select_category_totals_def group_by_category_sum_def)
qed

section \<open>Properties of the progress donut\<close>

text \<open>
  C10. \<^verbatim>\<open>DonutChart\<close> clamps its progress: for every real \<open>progress\<close> (negative,
  above 1, or in between) the length of the drawn arc is the circumference times
  \<open>max 0 (min 1 progress)\<close>, a factor that lies between 0 and 1, so the arc is never
  longer than the full circle; and for a ring whose stroke fits its size (the radius is
  not negative) the arc is never negative and never exceeds the circumference.
\<close>

theorem DonutChart_clamps_progress:
  "dash sz strokeWidth progress = circumference sz strokeWidth * max 0 (min 1 progress) \<and>
   0 \<le> clamped progress \<and> clamped progress \<le> 1 \<and>
   \<bar>dash sz strokeWidth progress\<bar> \<le> \<bar>circumference sz strokeWidth\<bar> \<and>
   (strokeWidth \<le> sz \<longrightarrow>
      0 \<le> dash sz strokeWidth progress \<and>
      dash sz strokeWidth progress \<le> circumference sz strokeWidth)"
proof -
  have c: "0 \<le> clamped progress" "clamped progress \<le> 1"
    by (simp_all add: clamped_def)
  have "0 \<le> circumference sz strokeWidth" if "strokeWidth \<le> sz"
    using that by (simp add: circumference_def radius_def)
  then have "0 \<le> dash sz strokeWidth progress \<and>
      dash sz strokeWidth progress \<le> circumference sz strokeWidth" if "strokeWidth \<le> sz"
    using that c by (simp add: dash_def mult_left_le)
  moreover have "\<bar>dash sz strokeWidth progress\<bar> \<le> \<bar>circumference sz strokeWidth\<bar>"
    using c by (simp add: dash_def abs_mult mult_left_le)
  ultimately show ?thesis
    using c by (simp add: dash_def clamped_def)
qed

theorem DonutChart_clamps_progress_witness:
  "(10::real) \<le> 96 \<and>
   dash 96 10 (3 / 2) = circumference 96 10 \<and>
   dash 96 10 (- 1) = 0 \<and>
   dash 96 10 (1 / 4) = circumference 96 10 * (1 / 4) \<and>
   0 \<le> dash 96 10 (3 / 2) \<and> dash 96 10 (3 / 2) \<le> circumference 96 10"
  using DonutChart_clamps_progress [of 96 10 "3 / 2"] DonutChart_clamps_progress [of 96 10 "- 1"]
    DonutChart_clamps_progress [of 96 10 "1 / 4"]
  by simp


section \<open>Properties of the write path\<close>

text \<open>
  C7. Validation comes before storage. When the parsed amount is not finite or not
  greater than 0, or the category is not in the allow-list, or the date is invalid,
  \<^verbatim>\<open>handleSubmit\<close> and \<^verbatim>\<open>handleEditSave\<close> report one of their validation messages,
  the same on every store, available or not; they return the store they were given and
  send no notification and no alert.
\<close>

theorem validation_rejects_before_storage:
  "(\<not> isFinite (toNumber (replace_comma (amount f))) \<or>
    le_zero (toNumber (replace_comma (amount f))) \<or>
    category f \<notin> set categories \<or>
    transactionDate f = InvalidDate
    \<longrightarrow> (\<exists>msg\<in>set validation_messages.
           \<forall>s. handleSubmit toNumber now onSaved f s
                 = (f\<lparr>error := Some msg, success := None\<rparr>, s, []))) \<and>
   (\<not> isFinite (toNumber (replace_comma (editAmount scr))) \<or>
    le_zero (toNumber (replace_comma (editAmount scr))) \<or>
    editCategory scr \<notin> set categories \<or>
    editDate scr = InvalidDate
    \<longrightarrow> (\<exists>msg\<in>set (''Select a single transaction to edit.'' # validation_messages).
           \<forall>s. handleEditSave toNumber scr s = (scr\<lparr>screenError := Some msg\<rparr>, s, [])))"
proof (intro conjI impI)
  let ?p = "toNumber (replace_comma (amount f))"
  assume bad: "\<not> isFinite ?p \<or> le_zero ?p \<or> category f \<notin> set categories \<or>
    transactionDate f = InvalidDate"
  consider (amount) "\<not> isFinite ?p \<or> le_zero ?p"
    | (category) "\<not> (\<not> isFinite ?p \<or> le_zero ?p)" "category f \<notin> set categories"
    | (date) "\<not> (\<not> isFinite ?p \<or> le_zero ?p)" "category f \<in> set categories"
        "transactionDate f = InvalidDate"
    using bad by blast
  then show "\<exists>msg\<in>set validation_messages.
           \<forall>s. handleSubmit toNumber now onSaved f s
                 = (f\<lparr>error := Some msg, success := None\<rparr>, s, [])"
  proof cases
    case amount
    then have "\<forall>s. handleSubmit toNumber now onSaved f s
        = (f\<lparr>error := Some ''Amount must be a number greater than 0.'', success := None\<rparr>, s, [])"
      by (simp add: handleSubmit_def Let_def)
    then show ?thesis
      unfolding validation_messages_def by (intro bexI [of _ "''Amount must be a number greater than 0.''"]) simp_all
  next
    case category
    then have "\<forall>s. handleSubmit toNumber now onSaved f s
        = (f\<lparr>error := Some ''Category must be selected from the list.'', success := None\<rparr>, s, [])"
      by (simp add: handleSubmit_def Let_def)
    then show ?thesis
      unfolding validation_messages_def by (intro bexI [of _ "''Category must be selected from the list.''"]) simp_all
  next
    case date
    then have "\<forall>s. handleSubmit toNumber now onSaved f s
        = (f\<lparr>error := Some ''Transaction date is required.'', success := None\<rparr>, s, [])"
      by (simp add: handleSubmit_def Let_def)
    then show ?thesis
      unfolding validation_messages_def by (intro bexI [of _ "''Transaction date is required.''"]) simp_all
  qed
next
  let ?p = "toNumber (replace_comma (editAmount scr))"
  assume bad: "\<not> isFinite ?p \<or> le_zero ?p \<or> editCategory scr \<notin> set categories \<or>
    editDate scr = InvalidDate"
  consider (selection) "length (selectedIds scr) \<noteq> 1"
    | (amount) "length (selectedIds scr) = 1" "\<not> isFinite ?p \<or> le_zero ?p"
    | (category) "length (selectedIds scr) = 1" "\<not> (\<not> isFinite ?p \<or> le_zero ?p)"
        "editCategory scr \<notin> set categories"
    | (date) "length (selectedIds scr) = 1" "\<not> (\<not> isFinite ?p \<or> le_zero ?p)"
        "editCategory scr \<in> set categories" "editDate scr = InvalidDate"
    using bad by blast
  then show "\<exists>msg\<in>set (''Select a single transaction to edit.'' # validation_messages).
           \<forall>s. handleEditSave toNumber scr s = (scr\<lparr>screenError := Some msg\<rparr>, s, [])"
  proof cases
    case selection
    then have "\<forall>s. handleEditSave toNumber scr s
        = (scr\<lparr>screenError := Some ''Select a single transaction to edit.''\<rparr>, s, [])"
      by (simp add: handleEditSave_def Let_def)
    then show ?thesis
      by (intro bexI [of _ "''Select a single transaction to edit.''"]) simp_all
  next
    case amount
    then have "\<forall>s. handleEditSave toNumber scr s
        = (scr\<lparr>screenError := Some ''Amount must be a number greater than 0.''\<rparr>, s, [])"
      by (simp add: handleEditSave_def Let_def)
    then show ?thesis
      unfolding validation_messages_def by (intro bexI [of _ "''Amount must be a number greater than 0.''"]) simp_all
  next
    case category
    then have "\<forall>s. handleEditSave toNumber scr s
        = (scr\<lparr>screenError := Some ''Category must be selected from the list.''\<rparr>, s, [])"
      by (simp add: handleEditSave_def Let_def)
    then show ?thesis
      unfolding validation_messages_def by (intro bexI [of _ "''Category must be selected from the list.''"]) simp_all
  next
    case date
    then have "\<forall>s. handleEditSave toNumber scr s
        = (scr\<lparr>screenError := Some ''Transaction date is required.''\<rparr>, s, [])"
      by (simp add: handleEditSave_def Let_def)
    then show ?thesis
      unfolding validation_messages_def by (intro bexI [of _ "''Transaction date is required.''"]) simp_all
  qed
qed

theorem validation_rejects_before_storage_witness:
  "le_zero (example_toNumber (replace_comma (amount example_form))) \<and>
   \<not> isFinite (example_toNumber (replace_comma (editAmount example_screen))) \<and>
   handleSubmit example_toNumber (LocalDate 2024 5 21) True example_form (example_store\<lparr>web := True\<rparr>)
     = (example_form\<lparr>error := Some ''Amount must be a number greater than 0.'', success := None\<rparr>,
        example_store\<lparr>web := True\<rparr>, []) \<and>
   handleEditSave example_toNumber example_screen (example_store\<lparr>web := True\<rparr>)
     = (example_screen\<lparr>screenError := Some ''Amount must be a number greater than 0.''\<rparr>,
        example_store\<lparr>web := True\<rparr>, [])"
proof -
  have a: "le_zero (example_toNumber (replace_comma (amount example_form)))"
    by (simp add: example_form_def example_toNumber_def)
  have b: "\<not> isFinite (example_toNumber (replace_comma (editAmount example_screen)))"
    by (simp add: example_screen_def example_toNumber_def)
  show ?thesis
    using a b
      validation_rejects_before_storage
        [of example_toNumber example_form "LocalDate 2024 5 21" True example_screen]
    by (simp add: handleSubmit_def handleEditSave_def Let_def example_form_def example_screen_def
        example_toNumber_def)
qed

text \<open>A submission that passes validation is written, and the notifications are sent.\<close>

lemma handleSubmit_saves_example:
  "handleSubmit example_toNumber (LocalDate 2024 5 21) True (example_form\<lparr>amount := ''12,5''\<rparr>)
     example_store
   = (\<lparr>amount = [], category = ''fun'', label = [], transactionDate = LocalDate 2024 5 21,
       error = None, success = Some ''Saved.'', dbReady = True\<rparr>,
      example_store\<lparr>transactions := transactions example_store @
          [\<lparr>t_id = 6, t_amount = 25 / 2, t_category = ''fun'', t_label = Some ''cinema'',
            t_date = ''2024-06-20''\<rparr>],
        transactions_seq := 6\<rparr>,
      [TransactionsChanged, Saved])"
  by (simp add: handleSubmit_def Let_def example_form_def example_toNumber_def example_store_def
      insertTransaction_def getDb_def attempt_def next_transaction_id_def categories_def
      trim_def is_space_def String_int_def padStart2_def)


section \<open>Properties of the change notification bus\<close>

lemma live_Nil [simp]: "live [] = []"
  by (simp add: live_def)

lemma live_Cons_None [simp]: "live (None # es) = live es"
  by (simp add: live_def)

lemma live_Cons_Some [simp]: "live (Some l # es) = l # live es"
  by (simp add: live_def)

lemma live_append [simp]: "live (es @ fs) = live es @ live fs"
  by (simp add: live_def)

lemma live_map_Some [simp]: "live (map Some A) = A"
  by (induction A) simp_all

lemma set_live: "l \<in> set (live es) \<longleftrightarrow> Some l \<in> set es"
  by (induction es) (auto split: option.splits simp: live_def)

lemma live_set_add:
  "live (set_add l es) = (if l \<in> set (live es) then live es else live es @ [l])"
  by (simp add: set_add_def set_live)

lemma live_take_drop: "live es = live (take i es) @ live (drop i es)"
  by (metis append_take_drop_id live_append)

lemma live_drop_None:
  "i < length es \<Longrightarrow> es ! i = None \<Longrightarrow> live (drop i es) = live (drop (Suc i) es)"
  by (metis Cons_nth_drop_Suc live_Cons_None)

lemma live_drop_Some:
  "i < length es \<Longrightarrow> es ! i = Some l \<Longrightarrow> live (drop i es) = l # live (drop (Suc i) es)"
  by (metis Cons_nth_drop_Suc live_Cons_Some)

lemma live_take_Suc_None:
  "i < length es \<Longrightarrow> es ! i = None \<Longrightarrow> live (take (Suc i) es) = live (take i es)"
  by (simp add: take_Suc_conv_app_nth)

lemma live_take_Suc_Some:
  "i < length es \<Longrightarrow> es ! i = Some l \<Longrightarrow> live (take (Suc i) es) = live (take i es) @ [l]"
  by (simp add: take_Suc_conv_app_nth)

lemma length_emptied [simp]: "length (emptied U es) = length es"
  by (simp add: emptied_def)

lemma emptied_append [simp]: "emptied U (es @ fs) = emptied U es @ emptied U fs"
  by (simp add: emptied_def)

lemma take_emptied: "take n (emptied U es) = emptied U (take n es)"
  by (simp add: emptied_def take_map)

lemma drop_emptied: "drop n (emptied U es) = emptied U (drop n es)"
  by (simp add: emptied_def drop_map)

lemma live_emptied: "live (emptied U es) = filter (\<lambda>l. l \<notin> U) (live es)"
  by (induction es) (auto simp: emptied_def split: option.splits)

lemma emptied_emptied: "emptied U (emptied W es) = emptied (W \<union> U) es"
  by (induction es) (auto simp: emptied_def split: option.splits)

lemma emptied_id: "set (live es) \<inter> U = {} \<Longrightarrow> emptied U es = es"
proof (induction es)
  case Nil
  show ?case by (simp add: emptied_def)
next
  case (Cons e es)
  then have "emptied U es = es" by (cases e) auto
  with Cons.prems show ?case
    by (cases e) (auto simp: emptied_def)
qed

lemma set_delete_emptied: "set_delete l es = emptied {l} es"
  by (induction es) (auto simp: set_delete_def emptied_def split: option.splits)

lemma run_body_respects:
  assumes "body_respects n0 cs b" and "distinct (live (listeners b))"
  shows "\<exists>A. invoked (run_body cs b) = invoked b \<and>
     listeners (run_body cs b) = emptied (set (unsubscribed cs)) (listeners b) @ map Some A \<and>
     distinct A \<and>
     set A \<inter> set (live (listeners b)) = {} \<and>
     set A \<inter> set (drop n0 (invoked b)) = {} \<and>
     set A \<subseteq> set (subscribed cs) \<and>
     set (unsubscribed cs) \<subseteq> set (drop n0 (invoked b)) \<and>
     set (subscribed cs) \<subseteq> set (live (listeners b)) \<union> set A"
  using assms
proof (induction cs b rule: run_body.induct)
  case (1 b)
  have "emptied {} (listeners b) = listeners b"
    by (rule emptied_id) simp
  then show ?case
    by (intro exI [of _ "[]"]) simp
next
  case (2 l cs b)
  let ?V = "set (drop n0 (invoked b))"
  let ?b1 = "subscribeTransactionsChanged l b"
  let ?U = "set (unsubscribed cs)"
  have ok: "Some l \<in> set (listeners b) \<or> l \<notin> ?V" and rest: "body_respects n0 cs ?b1"
    using "2.prems"(1) by simp_all
  have d1: "distinct (live (listeners ?b1))"
    using "2.prems"(2) by (simp add: subscribeTransactionsChanged_def live_set_add)
  have i1: "invoked ?b1 = invoked b"
    by (simp add: subscribeTransactionsChanged_def)
  from "2.IH" [OF rest d1] obtain A where
    A: "invoked (run_body cs ?b1) = invoked ?b1"
      "listeners (run_body cs ?b1) = emptied ?U (listeners ?b1) @ map Some A"
      "distinct A" "set A \<inter> set (live (listeners ?b1)) = {}"
      "set A \<inter> set (drop n0 (invoked ?b1)) = {}"
      "set A \<subseteq> set (subscribed cs)"
      "?U \<subseteq> set (drop n0 (invoked ?b1))"
      "set (subscribed cs) \<subseteq> set (live (listeners ?b1)) \<union> set A"
    by blast
  show ?case
  proof (cases "Some l \<in> set (listeners b)")
    case True
    then have same: "listeners ?b1 = listeners b"
      by (simp add: subscribeTransactionsChanged_def set_add_def)
    have "l \<in> set (live (listeners b))"
      using True by (simp add: set_live)
    with A same i1 show ?thesis
      by (intro exI [of _ A]) auto
  next
    case False
    then have fresh: "l \<notin> ?V" and notlive: "l \<notin> set (live (listeners b))"
      using ok by (simp_all add: set_live)
    have ext: "listeners ?b1 = listeners b @ [Some l]"
      using False by (simp add: subscribeTransactionsChanged_def set_add_def)
    have "l \<notin> ?U"
      using A(7) fresh i1 by auto
    then have e: "emptied ?U (listeners ?b1) = emptied ?U (listeners b) @ [Some l]"
      by (simp add: ext emptied_def)
    have l1: "set (live (listeners ?b1)) = insert l (set (live (listeners b)))"
      by (simp add: ext)
    have lA: "l \<notin> set A"
      using A(4) l1 by auto
    show ?thesis
    proof (intro exI [of _ "l # A"] conjI)
      show "invoked (run_body (Subscribe l # cs) b) = invoked b"
        using A(1) i1 by simp
      show "listeners (run_body (Subscribe l # cs) b)
          = emptied (set (unsubscribed (Subscribe l # cs))) (listeners b) @ map Some (l # A)"
        using A(2) e by simp
      show "distinct (l # A)"
        using A(3) lA by simp
      show "set (l # A) \<inter> set (live (listeners b)) = {}"
        using A(4) l1 notlive by auto
      show "set (l # A) \<inter> ?V = {}"
        using A(5) i1 fresh by auto
      show "set (l # A) \<subseteq> set (subscribed (Subscribe l # cs))"
        using A(6) by auto
      show "set (unsubscribed (Subscribe l # cs)) \<subseteq> ?V"
        using A(7) i1 by simp
      show "set (subscribed (Subscribe l # cs)) \<subseteq> set (live (listeners b)) \<union> set (l # A)"
        using A(8) l1 by auto
    qed
  qed
next
  case (3 l cs b)
  let ?V = "set (drop n0 (invoked b))"
  let ?b1 = "unsubscribe l b"
  let ?U = "set (unsubscribed cs)"
  have ok: "l \<in> ?V" and rest: "body_respects n0 cs ?b1"
    using "3.prems"(1) by simp_all
  have es1: "listeners ?b1 = emptied {l} (listeners b)"
    by (simp add: unsubscribe_def set_delete_emptied)
  have d1: "distinct (live (listeners ?b1))"
    using "3.prems"(2) by (simp add: es1 live_emptied)
  have i1: "invoked ?b1 = invoked b"
    by (simp add: unsubscribe_def)
  from "3.IH" [OF rest d1] obtain A where
    A: "invoked (run_body cs ?b1) = invoked ?b1"
      "listeners (run_body cs ?b1) = emptied ?U (listeners ?b1) @ map Some A"
      "distinct A" "set A \<inter> set (live (listeners ?b1)) = {}"
      "set A \<inter> set (drop n0 (invoked ?b1)) = {}"
      "set A \<subseteq> set (subscribed cs)"
      "?U \<subseteq> set (drop n0 (invoked ?b1))"
      "set (subscribed cs) \<subseteq> set (live (listeners ?b1)) \<union> set A"
    by blast
  have l1: "set (live (listeners ?b1)) = set (live (listeners b)) - {l}"
    by (auto simp: es1 live_emptied)
  have lA: "l \<notin> set A"
    using A(5) i1 ok by auto
  show ?case
  proof (intro exI [of _ A] conjI)
    show "invoked (run_body (Unsubscribe l # cs) b) = invoked b"
      using A(1) i1 by simp
    show "listeners (run_body (Unsubscribe l # cs) b)
        = emptied (set (unsubscribed (Unsubscribe l # cs))) (listeners b) @ map Some A"
      using A(2) by (simp add: es1 emptied_emptied)
    show "distinct A" by (rule A(3))
    show "set A \<inter> set (live (listeners b)) = {}"
      using A(4) l1 lA by auto
    show "set A \<inter> ?V = {}"
      using A(5) i1 by simp
    show "set A \<subseteq> set (subscribed (Unsubscribe l # cs))"
      using A(6) by simp
    show "set (unsubscribed (Unsubscribe l # cs)) \<subseteq> ?V"
      using A(7) i1 ok by simp
    show "set (subscribed (Unsubscribe l # cs)) \<subseteq> set (live (listeners b)) \<union> set A"
      using A(8) l1 by auto
  qed
qed

subsection \<open>A pass whose bodies respect it\<close>

lemma card_waiting_step:
  assumes "finite K" and "distinct A" and "set A \<subseteq> K" and "K1 \<subseteq> K - set A"
  shows "length A + card K1 \<le> card K"
proof -
  have "card K1 \<le> card (K - set A)"
    using assms(1,4) by (simp add: card_mono)
  also have "\<dots> = card K - card (set A)"
    using assms(3) by (simp add: card_Diff_subset)
  finally have "card K1 \<le> card K - length A"
    using assms(2) by (simp add: distinct_card)
  moreover have "length A \<le> card K"
    using assms(1,2,3) by (metis card_mono distinct_card)
  ultimately show ?thesis by simp
qed

lemma pass_resultD:
  assumes "pass_result body n0 i b b' N"
  shows "invoked b' = invoked b @ N"
    and "distinct (drop n0 (invoked b) @ N)"
    and "prefix (live (drop i (listeners b))) N"
    and "\<forall>l\<in>set N. set (subscribed (body l)) \<subseteq> set (drop n0 (invoked b)) \<union> set N"
    and "\<forall>l'\<in>set N. l' \<in> set (live (drop i (listeners b))) \<or>
         (\<exists>l\<in>set N. l' \<in> set (subscribed (body l)))"
    and "set (live (listeners b'))
       = (set (live (listeners b)) \<union> (\<Union>l\<in>set N. set (subscribed (body l))))
           - (\<Union>l\<in>set N. set (unsubscribed (body l)))"
    and "\<forall>l\<in>set N. \<forall>l'\<in>set (subscribed (body l)).
         l' \<in> set (live (listeners b)) \<or> l' \<notin> set (drop n0 (invoked b))"
proof -
  note r = assms [unfolded pass_result_def]
  note r2 = r [THEN conjunct2]
  note r3 = r2 [THEN conjunct2]
  note r4 = r3 [THEN conjunct2]
  note r5 = r4 [THEN conjunct2]
  note r6 = r5 [THEN conjunct2]
  show "invoked b' = invoked b @ N"
    by (rule r [THEN conjunct1])
  show "distinct (drop n0 (invoked b) @ N)"
    by (rule r2 [THEN conjunct1])
  show "prefix (live (drop i (listeners b))) N"
    by (rule r3 [THEN conjunct1])
  show "\<forall>l\<in>set N. set (subscribed (body l)) \<subseteq> set (drop n0 (invoked b)) \<union> set N"
    by (rule r4 [THEN conjunct1])
  show "\<forall>l'\<in>set N. l' \<in> set (live (drop i (listeners b))) \<or>
         (\<exists>l\<in>set N. l' \<in> set (subscribed (body l)))"
    by (rule r5 [THEN conjunct1])
  show "set (live (listeners b'))
       = (set (live (listeners b)) \<union> (\<Union>l\<in>set N. set (subscribed (body l))))
           - (\<Union>l\<in>set N. set (unsubscribed (body l)))"
    by (rule r6 [THEN conjunct1])
  show "\<forall>l\<in>set N. \<forall>l'\<in>set (subscribed (body l)).
         l' \<in> set (live (listeners b)) \<or> l' \<notin> set (drop n0 (invoked b))"
    by (rule r6 [THEN conjunct2])
qed

lemma forEach_respects:
  assumes closed: "\<forall>l\<in>set known. set (subscribed (body l)) \<subseteq> set known"
  shows "pass_inv n0 known i b \<Longrightarrow> pass_respects fuel body n0 i b \<Longrightarrow>
     length (listeners b)
       + card (set known - set (drop n0 (invoked b)) - set (live (listeners b))) < fuel + i \<Longrightarrow>
     \<exists>b' N. forEach fuel body i b = Some b' \<and> pass_result body n0 i b b' N"
proof (induction fuel arbitrary: i b)
  case 0
  then show ?case by (simp add: pass_inv_def)
next
  case (Suc fuel)
  let ?es = "listeners b"
  let ?Vs = "drop n0 (invoked b)"
  let ?V = "set ?Vs"
  from Suc.prems(1) have
    d: "distinct (live ?es)" and k: "set (live ?es) \<subseteq> set known"
    and n0: "n0 \<le> length (invoked b)" and dV: "distinct ?Vs"
    and wait: "set (live (drop i ?es)) \<inter> ?V = {}"
    and vis: "set (live (take i ?es)) \<subseteq> ?V" and ile: "i \<le> length ?es"
    by (simp_all add: pass_inv_def)
  show ?case
  proof (cases "i < length ?es")
    case False
    with ile have "drop i ?es = []" by simp
    with False dV show ?thesis
      by (intro exI [of _ b] exI [of _ "[]"]) (simp add: pass_result_def)
  next
    case True
    show ?thesis
    proof (cases "?es ! i")
      case None
      have dr: "live (drop i ?es) = live (drop (Suc i) ?es)"
        by (rule live_drop_None [OF True None])
      have tk: "live (take (Suc i) ?es) = live (take i ?es)"
        by (rule live_take_Suc_None [OF True None])
      have inv': "pass_inv n0 known (Suc i) b"
        using d k n0 dV wait vis True by (simp add: pass_inv_def dr tk)
      have resp': "pass_respects fuel body n0 (Suc i) b"
        using Suc.prems(2) True None by simp
      have fuel': "length ?es + card (set known - ?V - set (live ?es)) < fuel + Suc i"
        using Suc.prems(3) by simp
      from Suc.IH [OF inv' resp' fuel'] obtain b' N where
        r: "forEach fuel body (Suc i) b = Some b'" and res: "pass_result body n0 (Suc i) b b' N"
        by blast
      have res': "pass_result body n0 i b b' N"
        using res by (simp add: pass_result_def dr)
      have run: "forEach (Suc fuel) body i b = Some b'"
        using True None r by simp
      show ?thesis
        using run res' by blast
    next
      case (Some l)
      let ?cs = "body l"
      let ?b0 = "b\<lparr>invoked := invoked b @ [l]\<rparr>"
      let ?b1 = "run_body ?cs ?b0"
      let ?U = "set (unsubscribed ?cs)"
      have dr: "live (drop i ?es) = l # live (drop (Suc i) ?es)"
        by (rule live_drop_Some [OF True Some])
      have tk: "live (take (Suc i) ?es) = live (take i ?es) @ [l]"
        by (rule live_take_Suc_Some [OF True Some])
      have split: "live ?es = live (take i ?es) @ l # live (drop (Suc i) ?es)"
        using live_take_drop [of ?es i] dr by simp
      have lV: "l \<notin> ?V"
        using wait dr by auto
      have llive: "l \<in> set (live ?es)"
        using split by simp
      have lrest: "l \<notin> set (live (drop (Suc i) ?es))"
        using d split by auto
      have lknown: "l \<in> set known"
        using llive k by auto
      have V0: "drop n0 (invoked ?b0) = ?Vs @ [l]"
        using n0 by simp
      have resp0: "body_respects n0 ?cs ?b0"
        and resp1: "pass_respects fuel body n0 (Suc i) ?b1"
        using Suc.prems(2) True Some by simp_all
      have d0: "distinct (live (listeners ?b0))"
        using d by simp
      from run_body_respects [OF resp0 d0] obtain A where
        A: "invoked ?b1 = invoked ?b0"
          "listeners ?b1 = emptied ?U (listeners ?b0) @ map Some A"
          "distinct A" "set A \<inter> set (live (listeners ?b0)) = {}"
          "set A \<inter> set (drop n0 (invoked ?b0)) = {}"
          "set A \<subseteq> set (subscribed ?cs)"
          "?U \<subseteq> set (drop n0 (invoked ?b0))"
          "set (subscribed ?cs) \<subseteq> set (live (listeners ?b0)) \<union> set A"
        by blast
      have inv1: "invoked ?b1 = invoked b @ [l]"
        using A(1) by simp
      have Vs1: "drop n0 (invoked ?b1) = ?Vs @ [l]"
        using inv1 n0 by simp
      have es1: "listeners ?b1 = emptied ?U ?es @ map Some A"
        using A(2) by simp
      have AV: "set A \<inter> ?V = {}" and Al: "l \<notin> set A"
        using A(5) V0 by auto
      have Alive: "set A \<inter> set (live ?es) = {}"
        using A(4) by simp
      have UV: "?U \<subseteq> insert l ?V"
        using A(7) V0 by auto
      have subs: "set (subscribed ?cs) \<subseteq> set (live ?es) \<union> set A"
        using A(8) by simp
      have Aknown: "set A \<subseteq> set known"
        using A(6) closed lknown by blast
      have "set (live (drop (Suc i) ?es)) \<inter> ?U = {}"
        using wait dr lrest UV by auto
      then have keep: "emptied ?U (drop (Suc i) ?es) = drop (Suc i) ?es"
        by (rule emptied_id)
      have dr1: "drop (Suc i) (listeners ?b1) = drop (Suc i) ?es @ map Some A"
        using True by (simp add: es1 drop_emptied keep)
      have tk1: "take (Suc i) (listeners ?b1) = emptied ?U (take (Suc i) ?es)"
        using True by (simp add: es1 take_emptied)
      have live1: "set (live (listeners ?b1)) = (set (live ?es) - ?U) \<union> set A"
        by (auto simp: es1 live_emptied)
      have inv': "pass_inv n0 known (Suc i) ?b1"
        unfolding pass_inv_def
      proof (intro conjI)
        show "distinct (live (listeners ?b1))"
          using d A(3) Alive by (auto simp: es1 live_emptied)
        show "set (live (listeners ?b1)) \<subseteq> set known"
          using live1 k Aknown by auto
        show "n0 \<le> length (invoked ?b1)"
          using inv1 n0 by simp
        show "distinct (drop n0 (invoked ?b1))"
          using Vs1 dV lV by simp
        show "set (live (drop (Suc i) (listeners ?b1))) \<inter> set (drop n0 (invoked ?b1)) = {}"
          using wait dr lrest AV Al by (auto simp: dr1 Vs1)
        show "set (live (take (Suc i) (listeners ?b1))) \<subseteq> set (drop n0 (invoked ?b1))"
          using vis by (auto simp: tk1 live_emptied tk Vs1)
        show "Suc i \<le> length (listeners ?b1)"
          using True by (simp add: es1)
      qed
      let ?K = "set known - ?V - set (live ?es)"
      let ?K1 = "set known - set (drop n0 (invoked ?b1)) - set (live (listeners ?b1))"
      have "?K1 \<subseteq> ?K - set A"
        using UV by (auto simp: Vs1 live1)
      moreover have "set A \<subseteq> ?K"
        using Aknown AV Alive by auto
      ultimately have "length A + card ?K1 \<le> card ?K"
        using A(3) by (intro card_waiting_step) simp_all
      moreover have "length (listeners ?b1) = length ?es + length A"
        by (simp add: es1)
      ultimately have fuel': "length (listeners ?b1) + card ?K1 < fuel + Suc i"
        using Suc.prems(3) by simp
      from Suc.IH [OF inv' resp1 fuel'] obtain b' N1 where
        r: "forEach fuel body (Suc i) ?b1 = Some b'"
        and res: "pass_result body n0 (Suc i) ?b1 b' N1"
        by blast
      note i' = pass_resultD(1) [OF res] and dN = pass_resultD(2) [OF res]
        and pN = pass_resultD(3) [OF res] and cl = pass_resultD(4) [OF res]
        and on = pass_resultD(5) [OF res] and fin = pass_resultD(6) [OF res]
        and fr = pass_resultD(7) [OF res]
      have run: "forEach (Suc fuel) body i b = Some b'"
        using True Some r by simp
      have p1: "prefix (live (drop (Suc i) ?es) @ A) N1"
        using pN by (simp add: dr1)
      then have p2: "prefix (live (drop (Suc i) ?es)) N1"
        by (rule append_prefixD)
      have waitN: "set (live (drop (Suc i) ?es)) \<subseteq> set N1" and AN: "set A \<subseteq> set N1"
        using set_mono_prefix [OF p1] by auto
      have liveV: "set (live ?es) \<subseteq> ?V \<union> set (l # N1)"
        using split vis waitN by auto
      have c1: "invoked b' = invoked b @ l # N1"
        using i' inv1 by simp
      have c2: "distinct (?Vs @ l # N1)"
        using dN by (simp add: Vs1)
      have c3: "prefix (live (drop i ?es)) (l # N1)"
        using p2 by (simp add: dr)
      have c4: "\<forall>l2\<in>set (l # N1). set (subscribed (body l2)) \<subseteq> ?V \<union> set (l # N1)"
      proof
        fix l2 assume "l2 \<in> set (l # N1)"
        then consider "l2 = l" | "l2 \<in> set N1" by auto
        then show "set (subscribed (body l2)) \<subseteq> ?V \<union> set (l # N1)"
        proof cases
          case 1
          with subs liveV AN show ?thesis by auto
        next
          case 2
          with cl show ?thesis by (auto simp: Vs1)
        qed
      qed
      have c5: "\<forall>l'\<in>set (l # N1). l' \<in> set (live (drop i ?es)) \<or>
            (\<exists>l2\<in>set (l # N1). l' \<in> set (subscribed (body l2)))"
      proof
        fix l' assume "l' \<in> set (l # N1)"
        then consider "l' = l" | "l' \<in> set N1" by auto
        then show "l' \<in> set (live (drop i ?es)) \<or>
            (\<exists>l2\<in>set (l # N1). l' \<in> set (subscribed (body l2)))"
        proof cases
          case 1
          then show ?thesis by (simp add: dr)
        next
          case 2
          with on have "l' \<in> set (live (drop (Suc i) ?es)) \<or> l' \<in> set A \<or>
              (\<exists>l2\<in>set N1. l' \<in> set (subscribed (body l2)))"
            by (auto simp: dr1)
          with A(6) show ?thesis by (auto simp: dr)
        qed
      qed
      have noback: "(\<Union>l2\<in>set N1. set (subscribed (body l2))) \<inter> ?U = {}"
      proof (rule ccontr)
        assume "(\<Union>l2\<in>set N1. set (subscribed (body l2))) \<inter> ?U \<noteq> {}"
        then obtain x l2 where x: "l2 \<in> set N1" "x \<in> set (subscribed (body l2))" "x \<in> ?U"
          by auto
        from fr x(1,2) have "x \<in> set (live (listeners ?b1)) \<or> x \<notin> set (drop n0 (invoked ?b1))"
          by blast
        moreover have "x \<in> set (drop n0 (invoked ?b1))"
          using x(3) UV by (auto simp: Vs1)
        moreover have "x \<notin> set A"
          using x(3) UV AV Al by auto
        ultimately show False
          using x(3) by (auto simp: live1)
      qed
      have AU: "set A \<inter> ?U = {}"
        using UV AV Al by auto
      have c6: "set (live (listeners b'))
            = (set (live ?es) \<union> (\<Union>l2\<in>set (l # N1). set (subscribed (body l2))))
                - (\<Union>l2\<in>set (l # N1). set (unsubscribed (body l2)))"
        unfolding fin live1 using subs A(6) noback AU by auto
      have c7: "\<forall>l2\<in>set (l # N1). \<forall>l'\<in>set (subscribed (body l2)).
            l' \<in> set (live ?es) \<or> l' \<notin> ?V"
      proof (intro ballI)
        fix l2 l' assume "l2 \<in> set (l # N1)" and t: "l' \<in> set (subscribed (body l2))"
        then consider "l2 = l" | "l2 \<in> set N1" by auto
        then show "l' \<in> set (live ?es) \<or> l' \<notin> ?V"
        proof cases
          case 1
          with t subs AV show ?thesis by auto
        next
          case 2
          with fr t have "l' \<in> set (live (listeners ?b1)) \<or> l' \<notin> set (drop n0 (invoked ?b1))"
            by blast
          with AV show ?thesis by (auto simp: live1 Vs1)
        qed
      qed
      have "pass_result body n0 i b b' (l # N1)"
        unfolding pass_result_def by (intro conjI c1 c2 c3 c4 c5 c6 c7)
      with run show ?thesis by blast
    qed
  qed
qed

text \<open>
  Bodies that make no call, or only unsubscribe their own listener, respect every pass.
\<close>

lemma invoked_run_body [simp]: "invoked (run_body cs b) = invoked b"
  by (induction cs b rule: run_body.induct)
    (simp_all add: subscribeTransactionsChanged_def unsubscribe_def)

lemma body_respects_self:
  assumes "\<forall>c\<in>set cs. c = Unsubscribe l" and "l \<in> set (drop n0 (invoked b))"
  shows "body_respects n0 cs b"
  using assms
proof (induction cs arbitrary: b)
  case Nil
  show ?case by simp
next
  case (Cons c cs)
  then have c: "c = Unsubscribe l" by simp
  have "body_respects n0 cs (unsubscribe l b)"
    using Cons.prems by (intro Cons.IH) (simp_all add: unsubscribe_def)
  with c Cons.prems(2) show ?case by simp
qed

lemma pass_respects_self:
  assumes "\<forall>l. \<forall>c\<in>set (body l). c = Unsubscribe l" and "n0 \<le> length (invoked b)"
  shows "pass_respects fuel body n0 i b"
  using assms(2)
proof (induction fuel arbitrary: i b)
  case 0
  show ?case by simp
next
  case (Suc fuel)
  show ?case
  proof (cases "i < length (listeners b)")
    case False
    then show ?thesis by simp
  next
    case True
    show ?thesis
    proof (cases "listeners b ! i")
      case None
      with True Suc.IH [OF Suc.prems] show ?thesis by simp
    next
      case (Some l)
      let ?b0 = "b\<lparr>invoked := invoked b @ [l]\<rparr>"
      have "l \<in> set (drop n0 (invoked ?b0))"
        using Suc.prems by simp
      then have r: "body_respects n0 (body l) ?b0"
        using assms(1) by (intro body_respects_self) simp_all
      have "n0 \<le> length (invoked (run_body (body l) ?b0))"
        using Suc.prems by simp
      from Suc.IH [OF this] r True Some show ?thesis by simp
    qed
  qed
qed

text \<open>
  C3, as the code has it. \<^verbatim>\<open>emitTransactionsChanged\<close> walks the live set. Take
  listeners of a finite collection \<open>known\<close>, and a pass in which no body unsubscribes a
  listener that has not yet been invoked in the pass (a listener may unsubscribe itself)
  and no body subscribes again a listener that was invoked and has left. Then a single
  call returns, and the listeners \<open>N\<close> it has invoked are each invoked exactly once; they
  begin with the listeners subscribed at the start, in the order of subscription; every
  listener that the body of an invoked listener subscribes is invoked in that same pass;
  nobody else is invoked; and the set afterwards holds the invoked listeners that no
  invoked body unsubscribed.
\<close>

theorem emit_invokes_every_subscriber:
  assumes closed: "\<forall>l\<in>set known. set (subscribed (body l)) \<subseteq> set known"
    and d: "distinct (live (listeners b))"
    and k: "set (live (listeners b)) \<subseteq> set known"
    and ok: "pass_respects (Suc (length (listeners b) + length known)) body (length (invoked b)) 0 b"
  shows "\<exists>b' N. emitTransactionsChanged (Suc (length (listeners b) + length known)) body b = Some b' \<and>
     invoked b' = invoked b @ N \<and>
     distinct N \<and>
     prefix (live (listeners b)) N \<and>
     (\<forall>l\<in>set N. set (subscribed (body l)) \<subseteq> set N) \<and>
     (\<forall>l'\<in>set N. l' \<in> set (live (listeners b)) \<or> (\<exists>l\<in>set N. l' \<in> set (subscribed (body l)))) \<and>
     set (live (listeners b')) = set N - (\<Union>l\<in>set N. set (unsubscribed (body l)))"
proof -
  let ?fuel = "Suc (length (listeners b) + length known)"
  let ?n0 = "length (invoked b)"
  have inv: "pass_inv ?n0 known 0 b"
    using d k by (simp add: pass_inv_def)
  have "card (set known - set (drop ?n0 (invoked b)) - set (live (listeners b))) \<le> card (set known)"
    by (intro card_mono) auto
  also have "\<dots> \<le> length known"
    by (rule card_length)
  finally have fuel: "length (listeners b)
      + card (set known - set (drop ?n0 (invoked b)) - set (live (listeners b))) < ?fuel + 0"
    by simp
  from forEach_respects [OF closed inv ok fuel] obtain b' N where
    run: "forEach ?fuel body 0 b = Some b'" and res: "pass_result body ?n0 0 b b' N"
    by blast
  have c1: "invoked b' = invoked b @ N"
    by (rule pass_resultD(1) [OF res])
  have c2: "distinct N"
    using pass_resultD(2) [OF res] by simp
  have c3: "prefix (live (listeners b)) N"
    using pass_resultD(3) [OF res] by simp
  have c4: "\<forall>l\<in>set N. set (subscribed (body l)) \<subseteq> set N"
    using pass_resultD(4) [OF res] by simp
  have c5: "\<forall>l'\<in>set N. l' \<in> set (live (listeners b)) \<or> (\<exists>l\<in>set N. l' \<in> set (subscribed (body l)))"
    using pass_resultD(5) [OF res] by simp
  have all: "set (live (listeners b)) \<union> (\<Union>l\<in>set N. set (subscribed (body l))) = set N"
  proof
    show "set (live (listeners b)) \<union> (\<Union>l\<in>set N. set (subscribed (body l))) \<subseteq> set N"
      using set_mono_prefix [OF c3] c4 by auto
    show "set N \<subseteq> set (live (listeners b)) \<union> (\<Union>l\<in>set N. set (subscribed (body l)))"
      using c5 by auto
  qed
  have c6: "set (live (listeners b')) = set N - (\<Union>l\<in>set N. set (unsubscribed (body l)))"
    using pass_resultD(6) [OF res] unfolding all .
  have "emitTransactionsChanged ?fuel body b = Some b'"
    using run by (simp add: emitTransactionsChanged_def)
  with c1 c2 c3 c4 c5 c6 show ?thesis by blast
qed

theorem emit_invokes_every_subscriber_witness:
  "subscribed (respectful_body 0) = [2] \<and>
   subscribed (respectful_body 1) = [] \<and>
   subscribed (respectful_body 2) = [] \<and>
   unsubscribed (respectful_body 0) = [0] \<and>
   unsubscribed (respectful_body 2) = [1] \<and>
   distinct (live [Some 0, Some 1]) \<and>
   set (live [Some 0, Some 1]) \<subseteq> set [0, 1, 2] \<and>
   pass_respects 6 respectful_body 0 0 \<lparr>listeners = [Some 0, Some 1], invoked = []\<rparr> \<and>
   emitTransactionsChanged 6 respectful_body \<lparr>listeners = [Some 0, Some 1], invoked = []\<rparr>
     = Some \<lparr>listeners = [None, None, Some 2], invoked = [0, 1, 2]\<rparr>"
proof -
  let ?b = "\<lparr>listeners = [Some 0, Some 1], invoked = []\<rparr>"
  have a: "\<forall>l\<in>set [0, 1, 2]. set (subscribed (respectful_body l)) \<subseteq> set [0, 1, 2]"
    by (simp add: respectful_body_def)
  have b: "distinct (live (listeners ?b))"
    by simp
  have c: "set (live (listeners ?b)) \<subseteq> set [0, 1, 2]"
    by simp
  have ok: "pass_respects 6 respectful_body 0 0 ?b"
    by (simp add: eval_nat_numeral respectful_body_def subscribeTransactionsChanged_def
        unsubscribe_def set_add_def set_delete_def)
  have ok': "pass_respects (Suc (length (listeners ?b) + length [0, 1, 2 :: nat])) respectful_body
      (length (invoked ?b)) 0 ?b"
    using ok by (simp add: eval_nat_numeral)
  have run: "emitTransactionsChanged 6 respectful_body ?b
      = Some \<lparr>listeners = [None, None, Some 2], invoked = [0, 1, 2]\<rparr>"
    using emit_invokes_every_subscriber [OF a b c ok']
    by (simp add: emitTransactionsChanged_def eval_nat_numeral respectful_body_def
        subscribeTransactionsChanged_def unsubscribe_def set_add_def set_delete_def)
  have bodies: "subscribed (respectful_body 0) = [2]" "subscribed (respectful_body 1) = []"
    "subscribed (respectful_body 2) = []" "unsubscribed (respectful_body 0) = [0]"
    "unsubscribed (respectful_body 2) = [1]"
    by (simp_all add: respectful_body_def)
  show ?thesis
    using bodies ok run by simp
qed

text \<open>
  C3, as the claim states it, fails on the code: a listener subscribed by the body of
  another listener during a pass is invoked in that pass; a listener subscribed at the
  start that another body unsubscribes before its turn is not invoked at all; and a
  listener that unsubscribes itself and is subscribed again by a later body is invoked
  twice.
\<close>

theorem emit_late_subscriber_counterexample:
  "live (listeners example_bus) = [0] \<and>
   example_body 0 = [Subscribe 1] \<and>
   emitTransactionsChanged 3 example_body example_bus
     = Some \<lparr>listeners = [Some 0, Some 1], invoked = [0, 1]\<rparr> \<and>
   unsubscribing_body 0 = [Unsubscribe 1] \<and>
   emitTransactionsChanged 3 unsubscribing_body \<lparr>listeners = [Some 0, Some 1], invoked = []\<rparr>
     = Some \<lparr>listeners = [Some 0, None], invoked = [0]\<rparr> \<and>
   resubscribing_body 0 = [Unsubscribe 0] \<and> resubscribing_body 1 = [Subscribe 0] \<and>
   emitTransactionsChanged 4 resubscribing_body \<lparr>listeners = [Some 0, Some 1], invoked = []\<rparr>
     = Some \<lparr>listeners = [None, Some 1, None], invoked = [0, 1, 0]\<rparr>"
  by (simp add: emitTransactionsChanged_def example_bus_def example_body_def unsubscribing_body_def
      resubscribing_body_def subscribeTransactionsChanged_def unsubscribe_def set_add_def
      set_delete_def eval_nat_numeral)

end
